theory Spec2Isabelle
  imports Main
begin

section \<open>Python values: \<^verbatim>\<open>str(int)\<close>\<close>

text \<open>
  The script builds \<^verbatim>\<open>verse_id = str(chapter_number) + ':' + str(verse_number)\<close>.
  Python integers are unbounded, so they are \<^typ>\<open>int\<close>; \<^verbatim>\<open>str\<close> renders them
  in decimal, with a leading minus sign for a negative number.
\<close>

definition digit_char :: "nat \<Rightarrow> char" where
  "digit_char d = ''0123456789'' ! d"

fun str_nat :: "nat \<Rightarrow> string" where
  "str_nat n = (if n < 10 then [digit_char n] else str_nat (n div 10) @ [digit_char (n mod 10)])"

declare str_nat.simps [simp del]

definition str_int :: "int \<Rightarrow> string" where
  "str_int i = (if i < 0 then CHR ''-'' # str_nat (nat (- i)) else str_nat (nat i))"

section \<open>The five record types of \<^verbatim>\<open>quran_scrapper.py\<close>\<close>

text \<open>
  Each dictionary literal of the script is a record with the same keys (prefixed by the
  entity's initial, since the keys \<^verbatim>\<open>id\<close>, \<^verbatim>\<open>verses\<close>, \<^verbatim>\<open>pages\<close>, ... repeat
  across entities). A Python \<^verbatim>\<open>set\<close> is a HOL set, a Python \<^verbatim>\<open>list\<close> a HOL list.
\<close>

record explanation_rec =
  e_id :: string
  e_text :: string
  e_name :: string
  e_language :: string
  e_verse :: string
  e_page :: int
  e_section :: int
  e_chapter :: int

record verse_rec =
  v_id :: string
  v_number :: int
  v_arabic_unicodes :: "string list"
  v_explanations :: "string list"
  v_page :: int
  v_section :: int
  v_chapter :: int

record chapter_rec =
  c_id :: int
  c_number :: int
  c_name :: string
  c_aranic_unicode :: string
  c_basmalah :: bool
  c_verses :: "string list"
  c_pages :: "int list"
  c_sections :: "int set"

record section_rec =
  s_id :: int
  s_verses :: "string list"
  s_pages :: "int list"
  s_chapters :: "int set"

record page_rec =
  p_id :: int
  p_number :: int
  p_verses :: "string list"
  p_chapters :: "int set"
  p_sections :: "int set"

section \<open>The module state\<close>

text \<open>
  The five module-level dictionaries and the two pointers \<^verbatim>\<open>current_chapter\<close> and
  \<^verbatim>\<open>current_section\<close> (lines 230-234 and 254-255).
\<close>

record state =
  verses :: "string \<rightharpoonup> verse_rec"
  pages :: "int \<rightharpoonup> page_rec"
  chapters :: "int \<rightharpoonup> chapter_rec"
  sections :: "int \<rightharpoonup> section_rec"
  explanations :: "string \<rightharpoonup> explanation_rec"
  current_chapter :: int
  current_section :: int

definition init_state :: state where
  "init_state = \<lparr> verses = Map.empty, pages = Map.empty, chapters = Map.empty,
     sections = Map.empty, explanations = Map.empty,
     current_chapter = 0, current_section = 0 \<rparr>"

definition NO_BASMALA :: "int list" where
  "NO_BASMALA = [1, 9]"

section \<open>What the browser yields\<close>

text \<open>
  The browser session is outside the script's own logic: it is modelled by the data it
  hands over. For one verse element the getters return the verse number, the active
  chapter's number, name and Arabic title, the active section number, the verse's word
  tokens and its commentary. Instead of returning, a browser call may raise: the user's
  interrupt (\<^verbatim>\<open>KeyboardInterrupt\<close>), \<^verbatim>\<open>SystemExit\<close>, the \<^verbatim>\<open>TimeoutException\<close> of
  an explicit wait, or another WebDriver error. The model has such a raise in two places.
  For a page, \<open>page_wait\<close> is what the wait of line 274 does after the page record has
  been stored: \<open>None\<close> when an element matching \<^verbatim>\<open>PAGE_WAIT\<close> appears in time, the
  exception otherwise. \<^verbatim>\<open>PAGE_WAIT\<close> is the selector of the verse list of line 276, so a
  page that shows no verse element has \<open>page_wait = Some TimeoutException\<close>; the two
  calls are separate, and \<open>page_events\<close> is what line 276 returns when the wait has
  returned. For a verse, \<open>Raises\<close> is a raise at the click and wait that open it
  (lines 277-278), before anything of that verse is recorded. The click on the
  commentary tab before the loops (line 257) and the click that opens a page (line 260)
  change no dictionary and are left out.
\<close>

record observation =
  verse_number :: int
  chapter_number :: int
  section_number :: int
  chapter_name :: string
  chapter_arabic_unicode :: string
  arabic_unicodes :: "string list"
  explanation_text :: string
  explanation_name :: string

datatype signal = KeyboardInterrupt | SystemExit | TimeoutException | WebDriverException

datatype verse_event = Observed observation | Raises signal

record page_input =
  page_number :: int
  page_wait :: "signal option"
  page_events :: "verse_event list"

section \<open>Exceptions and sequencing\<close>

text \<open>
  A raised exception is a value that carries the state at the moment of the raise: the
  dictionaries are module globals, so whatever was stored before the raise stays stored.
\<close>

datatype exc = KeyError | TypeError | Signal signal

type_synonym result = "(exc \<times> state) + state"

fun run_steps :: "(state \<Rightarrow> result) list \<Rightarrow> state \<Rightarrow> result" where
  "run_steps [] s = Inr s"
| "run_steps (f # fs) s = (case f s of Inl x \<Rightarrow> Inl x | Inr s' \<Rightarrow> run_steps fs s')"

fun final_state :: "result \<Rightarrow> state" where
  "final_state (Inl (e, s)) = s"
| "final_state (Inr s) = s"

text \<open>
  \<^verbatim>\<open>chapters[k][...]\<close>, \<^verbatim>\<open>sections[k][...]\<close> and \<^verbatim>\<open>pages[k][...]\<close> look the key up
  first and raise \<^verbatim>\<open>KeyError\<close> when it is absent; the \<^verbatim>\<open>.add\<close> or \<^verbatim>\<open>.append\<close>
  that follows mutates the record found.
\<close>

definition modify_chapter :: "int \<Rightarrow> (chapter_rec \<Rightarrow> chapter_rec) \<Rightarrow> state \<Rightarrow> result" where
  "modify_chapter k f s =
     (case chapters s k of
        None \<Rightarrow> Inl (KeyError, s)
      | Some c \<Rightarrow> Inr (s\<lparr>chapters := (chapters s)(k \<mapsto> f c)\<rparr>))"

definition modify_section :: "int \<Rightarrow> (section_rec \<Rightarrow> section_rec) \<Rightarrow> state \<Rightarrow> result" where
  "modify_section k f s =
     (case sections s k of
        None \<Rightarrow> Inl (KeyError, s)
      | Some x \<Rightarrow> Inr (s\<lparr>sections := (sections s)(k \<mapsto> f x)\<rparr>))"

definition modify_page :: "int \<Rightarrow> (page_rec \<Rightarrow> page_rec) \<Rightarrow> state \<Rightarrow> result" where
  "modify_page k f s =
     (case pages s k of
        None \<Rightarrow> Inl (KeyError, s)
      | Some p \<Rightarrow> Inr (s\<lparr>pages := (pages s)(k \<mapsto> f p)\<rparr>))"

section \<open>The body of the verse loop (lines 286-349)\<close>

definition verse_id_of :: "observation \<Rightarrow> string" where
  "verse_id_of ob = str_int (chapter_number ob) @ '':'' @ str_int (verse_number ob)"

text \<open>Lines 291-301: \<^verbatim>\<open>explanations[explanation_id] = {...}\<close>.\<close>

definition set_explanation :: "int \<Rightarrow> observation \<Rightarrow> state \<Rightarrow> result" where
  "set_explanation page_id ob s =
     Inr (s\<lparr>explanations := (explanations s)(verse_id_of ob \<mapsto>
       \<lparr> e_id = verse_id_of ob, e_text = explanation_text ob, e_name = explanation_name ob,
         e_language = ''AR'', e_verse = verse_id_of ob, e_page = page_id,
         e_section = section_number ob, e_chapter = chapter_number ob \<rparr>)\<rparr>)"

text \<open>Lines 303-312: \<^verbatim>\<open>verses[verse_id] = {...}\<close>.\<close>

definition set_verse :: "int \<Rightarrow> observation \<Rightarrow> state \<Rightarrow> result" where
  "set_verse page_id ob s =
     Inr (s\<lparr>verses := (verses s)(verse_id_of ob \<mapsto>
       \<lparr> v_id = verse_id_of ob, v_number = verse_number ob,
         v_arabic_unicodes = arabic_unicodes ob, v_explanations = [verse_id_of ob],
         v_page = page_id, v_section = section_number ob,
         v_chapter = chapter_number ob \<rparr>)\<rparr>)"

text \<open>
  Lines 314-326: when the chapter differs from the pointer, the pointer moves and
  \<^verbatim>\<open>chapters[chapter_id]\<close> is assigned a new record; the assignment is not guarded by
  a membership test.
\<close>

definition new_chapter :: "observation \<Rightarrow> chapter_rec" where
  "new_chapter ob =
     \<lparr> c_id = chapter_number ob, c_number = chapter_number ob, c_name = chapter_name ob,
       c_aranic_unicode = chapter_arabic_unicode ob,
       c_basmalah = (chapter_number ob \<notin> set NO_BASMALA),
       c_verses = [], c_pages = [], c_sections = {} \<rparr>"

definition chapter_change :: "observation \<Rightarrow> state \<Rightarrow> result" where
  "chapter_change ob s =
     (if chapter_number ob \<noteq> current_chapter s
      then Inr (s\<lparr>current_chapter := chapter_number ob,
                  chapters := (chapters s)(chapter_number ob \<mapsto> new_chapter ob)\<rparr>)
      else Inr s)"

text \<open>Lines 329-337: the same for the section.\<close>

definition new_section :: "observation \<Rightarrow> section_rec" where
  "new_section ob =
     \<lparr> s_id = section_number ob, s_verses = [], s_pages = [], s_chapters = {} \<rparr>"

definition section_change :: "observation \<Rightarrow> state \<Rightarrow> result" where
  "section_change ob s =
     (if section_number ob \<noteq> current_section s
      then Inr (s\<lparr>current_section := section_number ob,
                  sections := (sections s)(section_number ob \<mapsto> new_section ob)\<rparr>)
      else Inr s)"

text \<open>The whole body: the statements of lines 291-349 in their order.\<close>

definition ingest :: "int \<Rightarrow> observation \<Rightarrow> state \<Rightarrow> result" where
  "ingest page_id ob =
     run_steps
       [ set_explanation page_id ob,
         set_verse page_id ob,
         chapter_change ob,
         section_change ob,
         modify_chapter (chapter_number ob)
           (\<lambda>c. c\<lparr>c_sections := insert (section_number ob) (c_sections c)\<rparr>),
         modify_page page_id
           (\<lambda>p. p\<lparr>p_sections := insert (section_number ob) (p_sections p)\<rparr>),
         modify_section (section_number ob)
           (\<lambda>x. x\<lparr>s_chapters := insert (chapter_number ob) (s_chapters x)\<rparr>),
         modify_page page_id
           (\<lambda>p. p\<lparr>p_chapters := insert (chapter_number ob) (p_chapters p)\<rparr>),
         modify_chapter (chapter_number ob)
           (\<lambda>c. c\<lparr>c_verses := c_verses c @ [verse_id_of ob]\<rparr>),
         modify_section (section_number ob)
           (\<lambda>x. x\<lparr>s_verses := s_verses x @ [verse_id_of ob]\<rparr>),
         modify_page page_id
           (\<lambda>p. p\<lparr>p_verses := p_verses p @ [verse_id_of ob]\<rparr>) ]"

section \<open>The two loops (lines 259-354)\<close>

fun verse_loop :: "int \<Rightarrow> verse_event list \<Rightarrow> state \<Rightarrow> result" where
  "verse_loop page_id [] s = Inr s"
| "verse_loop page_id (Raises g # evs) s = Inl (Signal g, s)"
| "verse_loop page_id (Observed ob # evs) s =
     (case ingest page_id ob s of
        Inl x \<Rightarrow> Inl x
      | Inr s' \<Rightarrow> verse_loop page_id evs s')"

text \<open>Lines 264-271: \<^verbatim>\<open>pages[page_id] = {...}\<close>, again a plain assignment.\<close>

definition new_page :: "int \<Rightarrow> state \<Rightarrow> result" where
  "new_page page_id s =
     Inr (s\<lparr>pages := (pages s)(page_id \<mapsto>
       \<lparr> p_id = page_id, p_number = page_id, p_verses = [],
         p_chapters = {}, p_sections = {} \<rparr>)\<rparr>)"

text \<open>
  Lines 353-354, after the verse loop of a page: the page is appended to the record of
  whichever chapter and section the pointers name at that moment.
\<close>

definition end_page :: "int \<Rightarrow> state \<Rightarrow> result" where
  "end_page page_id =
     run_steps
       [ (\<lambda>s. modify_chapter (current_chapter s) (\<lambda>c. c\<lparr>c_pages := c_pages c @ [page_id]\<rparr>) s),
         (\<lambda>s. modify_section (current_section s) (\<lambda>x. x\<lparr>s_pages := s_pages x @ [page_id]\<rparr>) s) ]"

text \<open>Line 274: \<^verbatim>\<open>wait.until(...)\<close> returns or raises; it changes no dictionary.\<close>

definition wait_page :: "page_input \<Rightarrow> state \<Rightarrow> result" where
  "wait_page p s = (case page_wait p of None \<Rightarrow> Inr s | Some g \<Rightarrow> Inl (Signal g, s))"

text \<open>One iteration of the page loop (lines 260-354).\<close>

definition scrape_page :: "page_input \<Rightarrow> state \<Rightarrow> result" where
  "scrape_page p =
     run_steps
       [ new_page (page_number p),
         wait_page p,
         verse_loop (page_number p) (page_events p),
         end_page (page_number p) ]"

fun page_loop :: "page_input list \<Rightarrow> state \<Rightarrow> result" where
  "page_loop [] s = Inr s"
| "page_loop (p # ps) s =
     (case scrape_page p s of
        Inl x \<Rightarrow> Inl x
      | Inr s' \<Rightarrow> page_loop ps s')"

text \<open>The observations a list of pages holds, in the order the loops reach them.\<close>

fun event_observations :: "verse_event list \<Rightarrow> observation list" where
  "event_observations [] = []"
| "event_observations (Observed ob # evs) = ob # event_observations evs"
| "event_observations (Raises g # evs) = event_observations evs"

fun all_observations :: "page_input list \<Rightarrow> observation list" where
  "all_observations [] = []"
| "all_observations (p # ps) = event_observations (page_events p) @ all_observations ps"

section \<open>Writing the files (lines 355-369)\<close>

text \<open>
  The \<^verbatim>\<open>finally\<close> block hands each dictionary to \<^verbatim>\<open>json.dump\<close>. The encoder of the
  standard library serialises \<^verbatim>\<open>dict\<close>, \<^verbatim>\<open>list\<close>, \<^verbatim>\<open>str\<close>, \<^verbatim>\<open>int\<close>, \<^verbatim>\<open>bool\<close> and
  \<^verbatim>\<open>None\<close>; for any other object, a \<^verbatim>\<open>set\<close> among them, it raises \<^verbatim>\<open>TypeError\<close>.
  The values that occur in the script's records are the following.
\<close>

datatype pyval =
  PInt int | PStr string | PBool bool | PStrList "string list" | PIntList "int list"
  | PIntSet "int set"

fun json_serializable :: "pyval \<Rightarrow> bool" where
  "json_serializable (PIntSet A) = False"
| "json_serializable v = True"

text \<open>The records as the dictionaries the script builds, key by key.\<close>

definition language_dict :: "string \<times> string \<Rightarrow> (string \<times> pyval) list" where
  "language_dict l = [(''id'', PStr (fst l)), (''name'', PStr (snd l))]"

definition languages :: "string \<rightharpoonup> string \<times> string" where
  "languages = [''AR'' \<mapsto> (''AR'', ''Arabic''), ''EN'' \<mapsto> (''EN'', ''English'')]"

definition verse_dict :: "verse_rec \<Rightarrow> (string \<times> pyval) list" where
  "verse_dict v =
     [(''id'', PStr (v_id v)), (''number'', PInt (v_number v)),
      (''arabic_unicodes'', PStrList (v_arabic_unicodes v)),
      (''explanations'', PStrList (v_explanations v)),
      (''page'', PInt (v_page v)), (''section'', PInt (v_section v)),
      (''chapter'', PInt (v_chapter v))]"

definition page_dict :: "page_rec \<Rightarrow> (string \<times> pyval) list" where
  "page_dict p =
     [(''id'', PInt (p_id p)), (''number'', PInt (p_number p)),
      (''verses'', PStrList (p_verses p)),
      (''chapters'', PIntSet (p_chapters p)), (''sections'', PIntSet (p_sections p))]"

definition chapter_dict :: "chapter_rec \<Rightarrow> (string \<times> pyval) list" where
  "chapter_dict c =
     [(''id'', PInt (c_id c)), (''number'', PInt (c_number c)), (''name'', PStr (c_name c)),
      (''aranic_unicode'', PStr (c_aranic_unicode c)), (''basmalah'', PBool (c_basmalah c)),
      (''verses'', PStrList (c_verses c)), (''pages'', PIntList (c_pages c)),
      (''sections'', PIntSet (c_sections c))]"

definition section_dict :: "section_rec \<Rightarrow> (string \<times> pyval) list" where
  "section_dict x =
     [(''id'', PInt (s_id x)), (''verses'', PStrList (s_verses x)),
      (''pages'', PIntList (s_pages x)), (''chapters'', PIntSet (s_chapters x))]"

definition explanation_dict :: "explanation_rec \<Rightarrow> (string \<times> pyval) list" where
  "explanation_dict e =
     [(''id'', PStr (e_id e)), (''text'', PStr (e_text e)), (''name'', PStr (e_name e)),
      (''language'', PStr (e_language e)), (''verse'', PStr (e_verse e)),
      (''page'', PInt (e_page e)), (''section'', PInt (e_section e)),
      (''chapter'', PInt (e_chapter e))]"

text \<open>
  \<^verbatim>\<open>json.dump(d, file)\<close> for a dictionary of records: \<^verbatim>\<open>TypeError\<close> when some record
  holds a value the encoder does not know, else the file is written. The result of a
  successful dump is the name of the file.
\<close>

definition json_dump ::
  "string \<Rightarrow> ('k \<rightharpoonup> 'r) \<Rightarrow> ('r \<Rightarrow> (string \<times> pyval) list) \<Rightarrow> string list \<Rightarrow> exc + string list" where
  "json_dump name d as_dict written =
     (if \<exists>k r. d k = Some r \<and> \<not> list_all (\<lambda>kv. json_serializable (snd kv)) (as_dict r)
      then Inl TypeError
      else Inr (written @ [name]))"

fun dump_steps :: "(string list \<Rightarrow> exc + string list) list \<Rightarrow> string list \<Rightarrow> exc + string list" where
  "dump_steps [] written = Inr written"
| "dump_steps (f # fs) written =
     (case f written of Inl e \<Rightarrow> Inl e | Inr written' \<Rightarrow> dump_steps fs written')"

text \<open>The \<^verbatim>\<open>finally\<close> block: six dumps in this order (lines 358-369).\<close>

definition finalize :: "state \<Rightarrow> exc + string list" where
  "finalize s =
     dump_steps
       [ json_dump ''languages'' languages language_dict,
         json_dump ''verses'' (verses s) verse_dict,
         json_dump ''pages'' (pages s) page_dict,
         json_dump ''chapters'' (chapters s) chapter_dict,
         json_dump ''sections'' (sections s) section_dict,
         json_dump ''explanations'' (explanations s) explanation_dict ] []"

text \<open>
  The \<^verbatim>\<open>try\<close> statement (lines 253-371). \<^verbatim>\<open>KeyboardInterrupt\<close> and \<^verbatim>\<open>SystemExit\<close>
  are caught and dropped; any other exception of the loops stays pending while the
  \<^verbatim>\<open>finally\<close> block runs. An exception raised inside the \<^verbatim>\<open>finally\<close> block is the one
  that leaves the script.
\<close>

definition script :: "page_input list \<Rightarrow> exc + string list" where
  "script ps =
     (case finalize (final_state (page_loop ps init_state)) of
        Inl e \<Rightarrow> Inl e
      | Inr written \<Rightarrow>
          (case page_loop ps init_state of
             Inr s \<Rightarrow> Inr written
           | Inl (Signal KeyboardInterrupt, s) \<Rightarrow> Inr written
           | Inl (Signal SystemExit, s) \<Rightarrow> Inr written
           | Inl (e, s) \<Rightarrow> Inl e))"

section \<open>The effect of one ingested observation, in closed form\<close>

text \<open>
  The definitions of this section are not translated from the script: they describe when
  the body of the verse loop runs through (\<open>can_ingest\<close>) and the state it leaves
  (\<open>ingested\<close>), and lemma \<open>ingest_Inr_iff\<close> below proves that this is what
  \<open>ingest\<close> computes.
\<close>

definition chapter_base :: "observation \<Rightarrow> state \<Rightarrow> chapter_rec" where
  "chapter_base ob s =
     (if chapter_number ob \<noteq> current_chapter s then new_chapter ob
      else the (chapters s (chapter_number ob)))"

definition section_base :: "observation \<Rightarrow> state \<Rightarrow> section_rec" where
  "section_base ob s =
     (if section_number ob \<noteq> current_section s then new_section ob
      else the (sections s (section_number ob)))"

definition ingested :: "int \<Rightarrow> observation \<Rightarrow> state \<Rightarrow> state" where
  "ingested page_id ob s =
     s\<lparr> explanations := (explanations s)(verse_id_of ob \<mapsto>
          \<lparr> e_id = verse_id_of ob, e_text = explanation_text ob, e_name = explanation_name ob,
            e_language = ''AR'', e_verse = verse_id_of ob, e_page = page_id,
            e_section = section_number ob, e_chapter = chapter_number ob \<rparr>),
        verses := (verses s)(verse_id_of ob \<mapsto>
          \<lparr> v_id = verse_id_of ob, v_number = verse_number ob,
            v_arabic_unicodes = arabic_unicodes ob, v_explanations = [verse_id_of ob],
            v_page = page_id, v_section = section_number ob,
            v_chapter = chapter_number ob \<rparr>),
        current_chapter := chapter_number ob,
        current_section := section_number ob,
        chapters := (chapters s)(chapter_number ob \<mapsto>
          (chapter_base ob s)\<lparr> c_sections := insert (section_number ob) (c_sections (chapter_base ob s)),
                                c_verses := c_verses (chapter_base ob s) @ [verse_id_of ob] \<rparr>),
        sections := (sections s)(section_number ob \<mapsto>
          (section_base ob s)\<lparr> s_chapters := insert (chapter_number ob) (s_chapters (section_base ob s)),
                                s_verses := s_verses (section_base ob s) @ [verse_id_of ob] \<rparr>),
        pages := (pages s)(page_id \<mapsto>
          (the (pages s page_id))\<lparr> p_sections := insert (section_number ob) (p_sections (the (pages s page_id))),
                                   p_chapters := insert (chapter_number ob) (p_chapters (the (pages s page_id))),
                                   p_verses := p_verses (the (pages s page_id)) @ [verse_id_of ob] \<rparr>) \<rparr>"

definition can_ingest :: "int \<Rightarrow> observation \<Rightarrow> state \<Rightarrow> bool" where
  "can_ingest page_id ob s =
     (page_id \<in> dom (pages s) \<and>
      (chapter_number ob \<noteq> current_chapter s \<or> chapter_number ob \<in> dom (chapters s)) \<and>
      (section_number ob \<noteq> current_section s \<or> section_number ob \<in> dom (sections s)))"

section \<open>Invariants of the run\<close>

text \<open>
  Predicates on the state that the proofs below carry through the loops. They are proof
  devices, not translations of code.
\<close>

definition chapter_flags_ok :: "state \<Rightarrow> bool" where
  "chapter_flags_ok s =
     (\<forall>k c. chapters s k = Some c \<longrightarrow> c_id c = k \<and> c_basmalah c = (k \<noteq> 1 \<and> k \<noteq> 9))"

definition pointers_ok :: "state \<Rightarrow> bool" where
  "pointers_ok s =
     ((current_chapter s = 0 \<or> current_chapter s \<in> dom (chapters s)) \<and>
      (current_section s = 0 \<or> current_section s \<in> dom (sections s)))"

definition explanations_ar :: "state \<Rightarrow> bool" where
  "explanations_ar s = (\<forall>k e. explanations s k = Some e \<longrightarrow> e_language e = ''AR'')"

text \<open>
  The chapter numbers and the section numbers that the verses mapping records for a list
  of verse ids.
\<close>

definition verse_chapters :: "state \<Rightarrow> string list \<Rightarrow> int set" where
  "verse_chapters s vids = set (List.map_filter (\<lambda>k. map_option v_chapter (verses s k)) vids)"

definition verse_sections :: "state \<Rightarrow> string list \<Rightarrow> int set" where
  "verse_sections s vids = set (List.map_filter (\<lambda>k. map_option v_section (verses s k)) vids)"

definition page_chapters_ok :: "state \<Rightarrow> bool" where
  "page_chapters_ok s =
     (\<forall>k p. pages s k = Some p \<longrightarrow>
        set (p_verses p) \<subseteq> dom (verses s) \<and>
        p_chapters p = verse_chapters s (p_verses p))"

definition page_sections_ok :: "state \<Rightarrow> bool" where
  "page_sections_ok s =
     (\<forall>k p. pages s k = Some p \<longrightarrow>
        set (p_verses p) \<subseteq> dom (verses s) \<and>
        p_sections p = verse_sections s (p_verses p))"

definition same_section :: "observation list \<Rightarrow> bool" where
  "same_section F =
     (\<forall>a \<in> set F. \<forall>b \<in> set F.
        verse_id_of a = verse_id_of b \<longrightarrow> section_number a = section_number b)"

definition recorded_section :: "state \<Rightarrow> observation list \<Rightarrow> bool" where
  "recorded_section s F =
     (\<forall>ob \<in> set F. \<forall>v. verses s (verse_id_of ob) = Some v \<longrightarrow>
        v_section v = section_number ob)"

definition recorded_chapter :: "state \<Rightarrow> bool" where
  "recorded_chapter s =
     (\<forall>ob v. verses s (verse_id_of ob) = Some v \<longrightarrow> v_chapter v = chapter_number ob)"

text \<open>
  The verses list stored under a key of the pages, sections or chapters mapping (empty
  when the key is absent).
\<close>

definition page_verses :: "state \<Rightarrow> int \<Rightarrow> string list" where
  "page_verses s k = (case pages s k of None \<Rightarrow> [] | Some p \<Rightarrow> p_verses p)"

definition section_verses :: "state \<Rightarrow> int \<Rightarrow> string list" where
  "section_verses s k = (case sections s k of None \<Rightarrow> [] | Some x \<Rightarrow> s_verses x)"

definition chapter_verses :: "state \<Rightarrow> int \<Rightarrow> string list" where
  "chapter_verses s k = (case chapters s k of None \<Rightarrow> [] | Some c \<Rightarrow> c_verses c)"

definition verse_links_ok :: "state \<Rightarrow> bool" where
  "verse_links_ok s =
     (\<forall>k v. verses s k = Some v \<longrightarrow>
        v_page v \<in> dom (pages s) \<and> v_section v \<in> dom (sections s) \<and>
        v_chapter v \<in> dom (chapters s))"

definition page_once :: "state \<Rightarrow> bool" where
  "page_once s =
     (\<forall>k v. verses s k = Some v \<longrightarrow> count_list (page_verses s (v_page v)) k = 1)"

definition section_once :: "state \<Rightarrow> bool" where
  "section_once s =
     (\<forall>k v. verses s k = Some v \<longrightarrow> count_list (section_verses s (v_section v)) k = 1)"

definition chapter_once :: "state \<Rightarrow> bool" where
  "chapter_once s =
     (\<forall>k v. verses s k = Some v \<longrightarrow> count_list (chapter_verses s (v_chapter v)) k = 1)"

definition lists_known :: "state \<Rightarrow> bool" where
  "lists_known s =
     (\<forall>k. set (page_verses s k) \<subseteq> dom (verses s) \<and>
          set (section_verses s k) \<subseteq> dom (verses s) \<and>
          set (chapter_verses s k) \<subseteq> dom (verses s))"

definition fresh_verses :: "state \<Rightarrow> observation list \<Rightarrow> bool" where
  "fresh_verses s F =
     (distinct (map verse_id_of F) \<and> (\<forall>ob \<in> set F. verse_id_of ob \<notin> dom (verses s)))"

definition fresh_pages :: "state \<Rightarrow> int list \<Rightarrow> bool" where
  "fresh_pages s P = (distinct P \<and> (\<forall>k \<in> set P. k \<notin> dom (pages s)))"

text \<open>
  A sequence of keys does not come back to a key it has left: dropping adjacent repeats
  leaves no repeat. The pointer, when it names an existing record, counts as the key
  the sequence is on.
\<close>

definition runs_ahead :: "int set \<Rightarrow> int \<Rightarrow> int list \<Rightarrow> bool" where
  "runs_ahead known cur ks =
     ((\<forall>k \<in> known. k \<noteq> cur \<longrightarrow> k \<notin> set ks) \<and>
      distinct (remdups_adj ((if cur \<in> known then [cur] else []) @ ks)))"

section \<open>Concrete inputs\<close>

text \<open>
  A synthetic observation with chapter \<open>c\<close>, section \<open>s\<close> and verse number \<open>v\<close>,
  and the scenario of three observations on page 1: (chapter 1, section 1, verse 1),
  (chapter 1, section 1, verse 2), (chapter 2, section 1, verse 1).
\<close>

definition synthetic :: "int \<Rightarrow> int \<Rightarrow> int \<Rightarrow> observation" where
  "synthetic c s v =
     \<lparr> verse_number = v, chapter_number = c, section_number = s,
       chapter_name = ''name'', chapter_arabic_unicode = ''title'', arabic_unicodes = [],
       explanation_text = ''text'', explanation_name = ''tafsir'' \<rparr>"

definition scenario_pages :: "page_input list" where
  "scenario_pages =
     [\<lparr> page_number = 1, page_wait = None,
        page_events = [Observed (synthetic 1 1 1), Observed (synthetic 1 1 2),
                       Observed (synthetic 2 1 1)] \<rparr>]"

definition scenario_state :: state where
  "scenario_state = final_state (page_loop scenario_pages init_state)"

text \<open>
  A chapter that comes back: after (chapter 1, verse 1) and (chapter 2, verse 1) on page 1,
  the next observation is (chapter 1, verse 2).
\<close>

definition revisit_state :: state where
  "revisit_state =
     final_state (verse_loop 1 [Observed (synthetic 1 1 1), Observed (synthetic 2 1 1)]
       (final_state (new_page 1 init_state)))"

definition revisit_pages :: "page_input list" where
  "revisit_pages =
     [\<lparr> page_number = 1, page_wait = None,
        page_events = [Observed (synthetic 1 1 1), Observed (synthetic 2 1 1),
                       Observed (synthetic 1 1 2)] \<rparr>]"

text \<open>The same verse observed twice on page 1.\<close>

definition duplicate_pages :: "page_input list" where
  "duplicate_pages =
     [\<lparr> page_number = 1, page_wait = None,
        page_events = [Observed (synthetic 1 1 1), Observed (synthetic 1 1 1)] \<rparr>]"

text \<open>The same verse on two pages, in section 1 first and in section 2 then.\<close>

definition moved_verse_pages :: "page_input list" where
  "moved_verse_pages =
     [\<lparr> page_number = 1, page_wait = None, page_events = [Observed (synthetic 1 1 1)] \<rparr>,
      \<lparr> page_number = 2, page_wait = None, page_events = [Observed (synthetic 1 2 1)] \<rparr>]"

text \<open>
  Five verses planned on page 1; the user's interrupt arrives when the third is opened.
  \<open>cancelled_state\<close> is the state that exactly the first two observations build.
\<close>

definition cancelled_pages :: "page_input list" where
  "cancelled_pages =
     [\<lparr> page_number = 1, page_wait = None,
        page_events = [Observed (synthetic 1 1 1), Observed (synthetic 1 1 2),
                       Raises KeyboardInterrupt,
                       Observed (synthetic 1 1 4), Observed (synthetic 1 1 5)] \<rparr>]"

definition cancelled_state :: state where
  "cancelled_state =
     ingested 1 (synthetic 1 1 2) (ingested 1 (synthetic 1 1 1) (final_state (new_page 1 init_state)))"

text \<open>A first page on which no verse element appears: the wait of line 274 times out.\<close>

definition blank_first_page :: "page_input list" where
  "blank_first_page =
     [\<lparr> page_number = 1, page_wait = Some TimeoutException, page_events = [] \<rparr>]"

section \<open>Properties\<close>

lemmas step_defs = set_explanation_def set_verse_def chapter_change_def section_change_def
  modify_chapter_def modify_section_def modify_page_def

lemma ingest_Inr_iff:
  "ingest page_id ob s = Inr s' \<longleftrightarrow> can_ingest page_id ob s \<and> s' = ingested page_id ob s"
  unfolding ingest_def can_ingest_def ingested_def chapter_base_def section_base_def
  by (auto simp: step_defs split: option.splits)

lemma ingest_Inl_KeyError:
  "ingest page_id ob s = Inl (e, s') \<Longrightarrow> e = KeyError"
  unfolding ingest_def
  by (auto simp: step_defs split: option.splits if_splits)

lemmas eval_defs = scenario_pages_def synthetic_def init_state_def scrape_page_def wait_page_def
  ingest_def
  end_page_def new_page_def step_defs new_chapter_def new_section_def NO_BASMALA_def
  verse_id_of_def str_int_def str_nat.simps digit_char_def

lemma scenario_runs: "page_loop scenario_pages init_state = Inr scenario_state"
  by (simp add: scenario_state_def eval_defs)

lemma run_steps_final:
  assumes "\<And>f s. f \<in> set fs \<Longrightarrow> P s \<Longrightarrow> P (final_state (f s))" and "P s"
  shows "P (final_state (run_steps fs s))"
  using assms
proof (induction fs arbitrary: s)
  case Nil
  then show ?case by simp
next
  case (Cons f fs)
  have step: "P (final_state (f s))" using Cons.prems by simp
  show ?case
  proof (cases "f s")
    case (Inl x)
    with step show ?thesis by simp
  next
    case (Inr s1)
    with step have "P s1" by simp
    then have "P (final_state (run_steps fs s1))"
      using Cons.IH Cons.prems(1) by simp
    with Inr show ?thesis by simp
  qed
qed

lemma verse_loop_final:
  assumes "\<And>ob s. P s \<Longrightarrow> P (final_state (ingest page_id ob s))" and "P s"
  shows "P (final_state (verse_loop page_id evs s))"
  using assms(2)
proof (induction evs arbitrary: s)
  case Nil
  then show ?case by simp
next
  case (Cons ev evs)
  show ?case
  proof (cases ev)
    case (Raises g)
    with Cons.prems show ?thesis by simp
  next
    case (Observed ob)
    have step: "P (final_state (ingest page_id ob s))" using assms(1) Cons.prems by simp
    show ?thesis
    proof (cases "ingest page_id ob s")
      case (Inl x)
      with step Observed show ?thesis by simp
    next
      case (Inr s1)
      with step have "P s1" by simp
      then have "P (final_state (verse_loop page_id evs s1))" by (rule Cons.IH)
      with Inr Observed show ?thesis by simp
    qed
  qed
qed

lemma page_loop_final:
  assumes "\<And>p s. P s \<Longrightarrow> P (final_state (scrape_page p s))" and "P s"
  shows "P (final_state (page_loop ps s))"
  using assms(2)
proof (induction ps arbitrary: s)
  case Nil
  then show ?case by simp
next
  case (Cons p ps)
  have step: "P (final_state (scrape_page p s))" using assms(1) Cons.prems by simp
  show ?case
  proof (cases "scrape_page p s")
    case (Inl x)
    with step show ?thesis by simp
  next
    case (Inr s1)
    with step have "P s1" by simp
    then have "P (final_state (page_loop ps s1))" by (rule Cons.IH)
    with Inr show ?thesis by simp
  qed
qed

text \<open>An invariant that every single statement keeps is kept by the whole run.\<close>

lemma scrape_invariant:
  assumes ing: "\<And>page_id ob s. P s \<Longrightarrow> P (final_state (ingest page_id ob s))"
    and np: "\<And>page_id s. P s \<Longrightarrow> P (final_state (new_page page_id s))"
    and ep: "\<And>page_id s. P s \<Longrightarrow> P (final_state (end_page page_id s))"
    and "P s"
  shows "P (final_state (page_loop ps s))"
proof (rule page_loop_final)
  show "P s" by fact
next
  fix p s assume "P s"
  show "P (final_state (scrape_page p s))"
    unfolding scrape_page_def
  proof (rule run_steps_final)
    show "P s" by fact
  next
    fix f s
    assume "f \<in> set [new_page (page_number p), wait_page p,
      verse_loop (page_number p) (page_events p), end_page (page_number p)]" and "P s"
    then show "P (final_state (f s))"
      using np ep verse_loop_final [of P "page_number p", OF ing]
      by (auto simp: wait_page_def split: option.splits)
  qed
qed

lemma chapter_flags_ingest:
  assumes "chapter_flags_ok s"
  shows "chapter_flags_ok (final_state (ingest page_id ob s))"
  unfolding ingest_def
proof (rule run_steps_final)
  show "chapter_flags_ok s" by fact
next
  fix f s
  assume "f \<in> set [ set_explanation page_id ob,
         set_verse page_id ob,
         chapter_change ob,
         section_change ob,
         modify_chapter (chapter_number ob)
           (\<lambda>c. c\<lparr>c_sections := insert (section_number ob) (c_sections c)\<rparr>),
         modify_page page_id
           (\<lambda>p. p\<lparr>p_sections := insert (section_number ob) (p_sections p)\<rparr>),
         modify_section (section_number ob)
           (\<lambda>x. x\<lparr>s_chapters := insert (chapter_number ob) (s_chapters x)\<rparr>),
         modify_page page_id
           (\<lambda>p. p\<lparr>p_chapters := insert (chapter_number ob) (p_chapters p)\<rparr>),
         modify_chapter (chapter_number ob)
           (\<lambda>c. c\<lparr>c_verses := c_verses c @ [verse_id_of ob]\<rparr>),
         modify_section (section_number ob)
           (\<lambda>x. x\<lparr>s_verses := s_verses x @ [verse_id_of ob]\<rparr>),
         modify_page page_id
           (\<lambda>p. p\<lparr>p_verses := p_verses p @ [verse_id_of ob]\<rparr>) ]"
    and "chapter_flags_ok s"
  then show "chapter_flags_ok (final_state (f s))"
    by (auto simp: chapter_flags_ok_def step_defs new_chapter_def NO_BASMALA_def
          split: option.splits if_splits)
qed

lemma chapter_flags_end_page:
  assumes "chapter_flags_ok s"
  shows "chapter_flags_ok (final_state (end_page page_id s))"
  unfolding end_page_def
  by (rule run_steps_final [where P = chapter_flags_ok, OF _ assms])
     (auto simp: chapter_flags_ok_def step_defs split: option.splits if_splits)

lemma chapter_flags_scrape: "chapter_flags_ok (final_state (page_loop ps init_state))"
proof (rule scrape_invariant)
  show "chapter_flags_ok init_state" by (simp add: chapter_flags_ok_def init_state_def)
qed (simp_all add: chapter_flags_ingest chapter_flags_end_page,
     simp add: new_page_def chapter_flags_ok_def)

text \<open>
  Claim C8. Every chapter record the run holds, at its end or at the moment an exception
  stops it, carries its key as its id, and its basmalah flag is false exactly when that
  id is 1 or 9.
\<close>

theorem basmalah_flag:
  assumes "chapters (final_state (page_loop ps init_state)) k = Some c"
  shows "c_id c = k \<and> (\<not> c_basmalah c \<longleftrightarrow> c_id c = 1 \<or> c_id c = 9)"
  using assms chapter_flags_scrape [of ps] by (auto simp: chapter_flags_ok_def)

theorem basmalah_flag_witness:
  "chapters (final_state (page_loop scenario_pages init_state)) 1 =
     Some \<lparr> c_id = 1, c_number = 1, c_name = ''name'', c_aranic_unicode = ''title'',
            c_basmalah = False, c_verses = [''1:1'', ''1:2''], c_pages = [],
            c_sections = {1} \<rparr>
   \<and> c_id \<lparr> c_id = 1, c_number = 1, c_name = ''name'', c_aranic_unicode = ''title'',
            c_basmalah = False, c_verses = [''1:1'', ''1:2''], c_pages = [],
            c_sections = {1} \<rparr> = (1::int)"
proof -
  have h: "chapters (final_state (page_loop scenario_pages init_state)) 1 =
     Some \<lparr> c_id = 1, c_number = 1, c_name = ''name'', c_aranic_unicode = ''title'',
            c_basmalah = False, c_verses = [''1:1'', ''1:2''], c_pages = [],
            c_sections = {1} \<rparr>"
    by (simp add: eval_defs)
  from basmalah_flag [OF h] h show ?thesis by simp
qed

lemma end_page_Inr_iff:
  "end_page page_id s = Inr s' \<longleftrightarrow>
     (\<exists>c x. chapters s (current_chapter s) = Some c \<and> sections s (current_section s) = Some x \<and>
        s' = s\<lparr>chapters := (chapters s)(current_chapter s \<mapsto> c\<lparr>c_pages := c_pages c @ [page_id]\<rparr>),
               sections := (sections s)(current_section s \<mapsto> x\<lparr>s_pages := s_pages x @ [page_id]\<rparr>)\<rparr>)"
  by (auto simp: end_page_def step_defs split: option.splits)

subsection \<open>The sentinel pointers\<close>

lemma pointers_ok_ingested:
  "can_ingest page_id ob s \<Longrightarrow> pointers_ok (ingested page_id ob s)"
  by (simp add: pointers_ok_def ingested_def)

lemma pointers_ok_can_ingest:
  assumes "pointers_ok s" and "page_id \<in> dom (pages s)"
    and "chapter_number ob \<noteq> 0" and "section_number ob \<noteq> 0"
  shows "can_ingest page_id ob s"
  using assms by (auto simp: pointers_ok_def can_ingest_def)

lemma pointers_ok_ingest: 
  assumes "pointers_ok s"
  shows "pointers_ok (final_state (ingest page_id ob s))"
  unfolding ingest_def
  by (rule run_steps_final [where P = pointers_ok, OF _ assms])
     (auto simp: pointers_ok_def step_defs split: option.splits if_splits)

lemma pointers_ok_end_page:
  assumes "pointers_ok s"
  shows "pointers_ok (final_state (end_page page_id s))"
  unfolding end_page_def
  by (rule run_steps_final [where P = pointers_ok, OF _ assms])
     (auto simp: pointers_ok_def step_defs split: option.splits if_splits)

lemma pointers_ok_scrape: "pointers_ok (final_state (page_loop ps init_state))"
proof (rule scrape_invariant)
  show "pointers_ok init_state" by (simp add: pointers_ok_def init_state_def)
qed (simp_all add: pointers_ok_ingest pointers_ok_end_page,
     simp add: new_page_def pointers_ok_def)

lemma verse_loop_no_KeyError:
  assumes "pointers_ok s" and "page_id \<in> dom (pages s)"
    and "\<forall>ob \<in> set (event_observations evs). chapter_number ob \<noteq> 0 \<and> section_number ob \<noteq> 0"
  shows "verse_loop page_id evs s \<noteq> Inl (KeyError, s')"
  using assms
proof (induction evs arbitrary: s)
  case Nil
  then show ?case by simp
next
  case (Cons ev evs)
  show ?case
  proof (cases ev)
    case (Raises g)
    then show ?thesis by simp
  next
    case (Observed ob)
    with Cons.prems have "can_ingest page_id ob s"
      by (simp add: pointers_ok_can_ingest)
    then have ing: "ingest page_id ob s = Inr (ingested page_id ob s)"
      by (simp add: ingest_Inr_iff)
    have "pointers_ok (ingested page_id ob s)"
      using \<open>can_ingest page_id ob s\<close> by (rule pointers_ok_ingested)
    moreover have "page_id \<in> dom (pages (ingested page_id ob s))"
      by (simp add: ingested_def)
    moreover have "\<forall>ob \<in> set (event_observations evs). chapter_number ob \<noteq> 0 \<and> section_number ob \<noteq> 0"
      using Cons.prems(3) Observed by simp
    ultimately have "verse_loop page_id evs (ingested page_id ob s) \<noteq> Inl (KeyError, s')"
      by (rule Cons.IH)
    with ing Observed show ?thesis by simp
  qed
qed

lemma first_observation_chapter_0:
  assumes "chapter_number ob = 0"
  shows "\<exists>s'. page_loop (\<lparr>page_number = n, page_wait = None, page_events = Observed ob # evs\<rparr> # ps) init_state
           = Inl (KeyError, s') \<and> chapters s' = Map.empty"
  using assms
  by (simp add: scrape_page_def new_page_def wait_page_def ingest_def step_defs init_state_def)

lemma first_observation_section_0:
  assumes "section_number ob = 0"
  shows "\<exists>s'. page_loop (\<lparr>page_number = n, page_wait = None, page_events = Observed ob # evs\<rparr> # ps) init_state
           = Inl (KeyError, s') \<and> sections s' = Map.empty"
  using assms
  by (simp add: scrape_page_def new_page_def wait_page_def ingest_def step_defs init_state_def)

text \<open>
  Claim C9. When the first observation of a run carries chapter number 0 (section number
  0), the comparison with the pointer, initialised to 0, finds no change, no chapter
  (section) record is created, and the run stops with a \<open>KeyError\<close>. After any pages that
  were scraped without an exception, the verse loop of the next page never raises
  \<open>KeyError\<close> when all its observations have chapter and section numbers different from
  0: every lookup of the loop body finds its key.
\<close>

theorem sentinel_precondition:
  "(chapter_number ob = 0 \<longrightarrow>
      (\<exists>s'. page_loop (\<lparr>page_number = n, page_wait = None, page_events = Observed ob # evs\<rparr> # ps) init_state
           = Inl (KeyError, s') \<and> chapters s' = Map.empty))
   \<and> (section_number ob = 0 \<longrightarrow>
      (\<exists>s'. page_loop (\<lparr>page_number = n, page_wait = None, page_events = Observed ob # evs\<rparr> # ps) init_state
           = Inl (KeyError, s') \<and> sections s' = Map.empty))
   \<and> (page_loop ps' init_state = Inr s \<and>
      (\<forall>ob \<in> set (event_observations evs'). chapter_number ob \<noteq> 0 \<and> section_number ob \<noteq> 0) \<longrightarrow>
      (\<forall>s'. run_steps [new_page page_id, verse_loop page_id evs'] s \<noteq> Inl (KeyError, s')))"
proof (intro conjI impI allI)
  assume "chapter_number ob = 0"
  then show "\<exists>s'. page_loop (\<lparr>page_number = n, page_wait = None, page_events = Observed ob # evs\<rparr> # ps) init_state
           = Inl (KeyError, s') \<and> chapters s' = Map.empty"
    by (rule first_observation_chapter_0)
next
  assume "section_number ob = 0"
  then show "\<exists>s'. page_loop (\<lparr>page_number = n, page_wait = None, page_events = Observed ob # evs\<rparr> # ps) init_state
           = Inl (KeyError, s') \<and> sections s' = Map.empty"
    by (rule first_observation_section_0)
next
  fix s'
  assume a: "page_loop ps' init_state = Inr s \<and>
      (\<forall>ob \<in> set (event_observations evs'). chapter_number ob \<noteq> 0 \<and> section_number ob \<noteq> 0)"
  have "pointers_ok s" using pointers_ok_scrape [of ps'] a by simp
  then have "pointers_ok (final_state (new_page page_id s))"
    by (simp add: new_page_def pointers_ok_def)
  moreover have "page_id \<in> dom (pages (final_state (new_page page_id s)))"
    by (simp add: new_page_def)
  ultimately have "verse_loop page_id evs' (final_state (new_page page_id s)) \<noteq> Inl (KeyError, s')"
    using a by (intro verse_loop_no_KeyError) auto
  then show "run_steps [new_page page_id, verse_loop page_id evs'] s \<noteq> Inl (KeyError, s')"
    by (auto simp: new_page_def split: sum.splits)
qed

theorem sentinel_precondition_witness:
  "chapter_number (synthetic 0 0 1) = 0
   \<and> (\<exists>s'. page_loop [\<lparr>page_number = 1, page_wait = None, page_events = [Observed (synthetic 0 0 1)]\<rparr>] init_state
           = Inl (KeyError, s') \<and> chapters s' = Map.empty)
   \<and> section_number (synthetic 0 0 1) = 0
   \<and> (\<exists>s'. page_loop [\<lparr>page_number = 1, page_wait = None, page_events = [Observed (synthetic 0 0 1)]\<rparr>] init_state
           = Inl (KeyError, s') \<and> sections s' = Map.empty)
   \<and> page_loop scenario_pages init_state = Inr scenario_state
   \<and> chapter_number (synthetic 3 2 1) \<noteq> 0 \<and> section_number (synthetic 3 2 1) \<noteq> 0
   \<and> (\<forall>s'. run_steps [new_page 2, verse_loop 2 [Observed (synthetic 3 2 1)]] scenario_state
           \<noteq> Inl (KeyError, s'))"
  using sentinel_precondition [where ob = "synthetic 0 0 1" and n = 1 and evs = "[]" and ps = "[]"
      and ps' = scenario_pages and s = scenario_state
      and evs' = "[Observed (synthetic 3 2 1)]" and page_id = 2]
    scenario_runs
  by (simp add: synthetic_def)

subsection \<open>A first page without verses\<close>

lemma verse_loop_pointers_present:
  assumes "verse_loop page_id evs s = Inr s'" and "evs \<noteq> []"
  shows "current_chapter s' \<in> dom (chapters s') \<and> current_section s' \<in> dom (sections s')"
  using assms
proof (induction evs arbitrary: s)
  case Nil
  then show ?case by simp
next
  case (Cons ev evs)
  from Cons.prems(1) obtain ob where ev: "ev = Observed ob"
    by (cases ev) auto
  with Cons.prems(1) have ci: "can_ingest page_id ob s"
    and rest: "verse_loop page_id evs (ingested page_id ob s) = Inr s'"
    by (auto simp: ingest_Inr_iff split: sum.splits)
  show ?case
  proof (cases "evs = []")
    case True
    with rest have "s' = ingested page_id ob s" by simp
    then show ?thesis by (auto simp: ingested_def)
  next
    case False
    with rest show ?thesis by (rule Cons.IH)
  qed
qed

text \<open>
  Against claim C10: on a first page that shows no verse element the wait of line 274,
  whose selector is the one of the verse list, raises \<open>TimeoutException\<close>. The run stops
  there with the empty page record stored; the append of lines 353-354 is not reached
  and no \<open>KeyError\<close> is raised.
\<close>

theorem blank_page_counterexample:
  "all_observations blank_first_page = []
   \<and> page_loop blank_first_page init_state =
       Inl (Signal TimeoutException, init_state\<lparr>pages := [1 \<mapsto>
         \<lparr> p_id = 1, p_number = 1, p_verses = [], p_chapters = {}, p_sections = {} \<rparr>]\<rparr>)
   \<and> page_loop blank_first_page init_state \<noteq>
       Inl (KeyError, init_state\<lparr>pages := [1 \<mapsto>
         \<lparr> p_id = 1, p_number = 1, p_verses = [], p_chapters = {}, p_sections = {} \<rparr>]\<rparr>)"
  by (simp add: blank_first_page_def scrape_page_def new_page_def wait_page_def init_state_def)

text \<open>
  Claim C10, amended. When the wait before the verse loop of the first page raises, as it
  does when no verse element appears, the run stops with that exception and the empty
  page record; the append is not reached. When the wait returns and the verse list is
  empty all the same, the append after the verse loop looks up chapter 0, which is not a
  key, and the run stops with a \<open>KeyError\<close>: the state then holds the empty page record
  and no chapter or section. Once a verse loop with at least one verse has run through,
  both pointers name existing records and the append after it succeeds.
\<close>

theorem empty_first_page:
  "page_loop (\<lparr>page_number = n, page_wait = Some g, page_events = unread\<rparr> # ps) init_state =
     Inl (Signal g, init_state\<lparr>pages := [n \<mapsto>
       \<lparr> p_id = n, p_number = n, p_verses = [], p_chapters = {}, p_sections = {} \<rparr>]\<rparr>)
   \<and> page_loop (\<lparr>page_number = n, page_wait = None, page_events = []\<rparr> # ps) init_state =
     Inl (KeyError, init_state\<lparr>pages := [n \<mapsto>
       \<lparr> p_id = n, p_number = n, p_verses = [], p_chapters = {}, p_sections = {} \<rparr>]\<rparr>)
   \<and> (evs \<noteq> [] \<and> verse_loop page_id evs s = Inr s' \<longrightarrow> (\<exists>s''. end_page page_id s' = Inr s''))"
proof (intro conjI impI)
  show "page_loop (\<lparr>page_number = n, page_wait = Some g, page_events = unread\<rparr> # ps) init_state =
     Inl (Signal g, init_state\<lparr>pages := [n \<mapsto>
       \<lparr> p_id = n, p_number = n, p_verses = [], p_chapters = {}, p_sections = {} \<rparr>]\<rparr>)"
    by (simp add: scrape_page_def new_page_def wait_page_def init_state_def)
next
  show "page_loop (\<lparr>page_number = n, page_wait = None, page_events = []\<rparr> # ps) init_state =
     Inl (KeyError, init_state\<lparr>pages := [n \<mapsto>
       \<lparr> p_id = n, p_number = n, p_verses = [], p_chapters = {}, p_sections = {} \<rparr>]\<rparr>)"
    by (simp add: scrape_page_def new_page_def wait_page_def end_page_def step_defs init_state_def)
next
  assume "evs \<noteq> [] \<and> verse_loop page_id evs s = Inr s'"
  then have "current_chapter s' \<in> dom (chapters s') \<and> current_section s' \<in> dom (sections s')"
    using verse_loop_pointers_present by blast
  then show "\<exists>s''. end_page page_id s' = Inr s''"
    by (auto simp: end_page_Inr_iff)
qed

theorem empty_first_page_witness:
  "page_loop [\<lparr>page_number = 1, page_wait = Some TimeoutException, page_events = []\<rparr>] init_state =
     Inl (Signal TimeoutException, init_state\<lparr>pages := [1 \<mapsto>
       \<lparr> p_id = 1, p_number = 1, p_verses = [], p_chapters = {}, p_sections = {} \<rparr>]\<rparr>)
   \<and> page_loop [\<lparr>page_number = 1, page_wait = None, page_events = []\<rparr>] init_state =
     Inl (KeyError, init_state\<lparr>pages := [1 \<mapsto>
       \<lparr> p_id = 1, p_number = 1, p_verses = [], p_chapters = {}, p_sections = {} \<rparr>]\<rparr>)
   \<and> [Observed (synthetic 1 1 1)] \<noteq> []
   \<and> verse_loop 1 [Observed (synthetic 1 1 1)] (final_state (new_page 1 init_state)) =
       Inr (ingested 1 (synthetic 1 1 1) (final_state (new_page 1 init_state)))
   \<and> (\<exists>s''. end_page 1 (ingested 1 (synthetic 1 1 1) (final_state (new_page 1 init_state))) = Inr s'')"
proof -
  have h: "verse_loop 1 [Observed (synthetic 1 1 1)] (final_state (new_page 1 init_state)) =
       Inr (ingested 1 (synthetic 1 1 1) (final_state (new_page 1 init_state)))"
  proof -
    have "ingest 1 (synthetic 1 1 1) (final_state (new_page 1 init_state)) =
       Inr (ingested 1 (synthetic 1 1 1) (final_state (new_page 1 init_state)))"
      by (simp add: ingest_Inr_iff can_ingest_def new_page_def init_state_def synthetic_def)
    then show ?thesis by simp
  qed
  from empty_first_page [where n = 1 and g = TimeoutException and unread = "[]" and ps = "[]"
      and evs = "[Observed (synthetic 1 1 1)]"
      and page_id = 1 and s = "final_state (new_page 1 init_state)"
      and s' = "ingested 1 (synthetic 1 1 1) (final_state (new_page 1 init_state))"] h
  show ?thesis by simp
qed

subsection \<open>Two observations in the same context\<close>

text \<open>
  Claim C6. Two consecutive observations on the same page with the same chapter and
  section: after the second one the chapter's section set, the section's chapter set and
  the page's two sets are what they were after the first one (the second \<open>add\<close> changes
  nothing), while the verses lists of the chapter, the section and the page have grown
  by both verse ids. The record that receives the appends is \<open>chapter_base\<close>
  (\<open>section_base\<close>): the existing one when the pointer already names it, a new one
  otherwise.
\<close>

theorem repeated_context:
  assumes "chapter_number ob2 = chapter_number ob1" and "section_number ob2 = section_number ob1"
    and "ingest page_id ob1 s = Inr s1" and "ingest page_id ob2 s1 = Inr s2"
  shows "chapters s1 (chapter_number ob1) = Some ((chapter_base ob1 s)
           \<lparr> c_sections := insert (section_number ob1) (c_sections (chapter_base ob1 s)),
             c_verses := c_verses (chapter_base ob1 s) @ [verse_id_of ob1] \<rparr>)
       \<and> chapters s2 (chapter_number ob1) = Some ((chapter_base ob1 s)
           \<lparr> c_sections := insert (section_number ob1) (c_sections (chapter_base ob1 s)),
             c_verses := c_verses (chapter_base ob1 s) @ [verse_id_of ob1, verse_id_of ob2] \<rparr>)
       \<and> sections s1 (section_number ob1) = Some ((section_base ob1 s)
           \<lparr> s_chapters := insert (chapter_number ob1) (s_chapters (section_base ob1 s)),
             s_verses := s_verses (section_base ob1 s) @ [verse_id_of ob1] \<rparr>)
       \<and> sections s2 (section_number ob1) = Some ((section_base ob1 s)
           \<lparr> s_chapters := insert (chapter_number ob1) (s_chapters (section_base ob1 s)),
             s_verses := s_verses (section_base ob1 s) @ [verse_id_of ob1, verse_id_of ob2] \<rparr>)
       \<and> (\<exists>p. pages s page_id = Some p
           \<and> pages s1 page_id = Some (p
               \<lparr> p_sections := insert (section_number ob1) (p_sections p),
                 p_chapters := insert (chapter_number ob1) (p_chapters p),
                 p_verses := p_verses p @ [verse_id_of ob1] \<rparr>)
           \<and> pages s2 page_id = Some (p
               \<lparr> p_sections := insert (section_number ob1) (p_sections p),
                 p_chapters := insert (chapter_number ob1) (p_chapters p),
                 p_verses := p_verses p @ [verse_id_of ob1, verse_id_of ob2] \<rparr>))"
proof -
  from assms(3) have ci: "can_ingest page_id ob1 s" and s1: "s1 = ingested page_id ob1 s"
    by (simp_all add: ingest_Inr_iff)
  from assms(4) have s2: "s2 = ingested page_id ob2 s1"
    by (simp add: ingest_Inr_iff)
  from ci obtain p where p: "pages s page_id = Some p"
    by (auto simp: can_ingest_def)
  have c1: "chapters s1 (chapter_number ob1) = Some ((chapter_base ob1 s)
           \<lparr> c_sections := insert (section_number ob1) (c_sections (chapter_base ob1 s)),
             c_verses := c_verses (chapter_base ob1 s) @ [verse_id_of ob1] \<rparr>)"
    by (simp add: s1 ingested_def)
  have x1: "sections s1 (section_number ob1) = Some ((section_base ob1 s)
           \<lparr> s_chapters := insert (chapter_number ob1) (s_chapters (section_base ob1 s)),
             s_verses := s_verses (section_base ob1 s) @ [verse_id_of ob1] \<rparr>)"
    by (simp add: s1 ingested_def)
  have p1: "pages s1 page_id = Some (p
               \<lparr> p_sections := insert (section_number ob1) (p_sections p),
                 p_chapters := insert (chapter_number ob1) (p_chapters p),
                 p_verses := p_verses p @ [verse_id_of ob1] \<rparr>)"
    by (simp add: s1 ingested_def p)
  have cur: "current_chapter s1 = chapter_number ob1" "current_section s1 = section_number ob1"
    by (simp_all add: s1 ingested_def)
  have cb: "chapter_base ob2 s1 = the (chapters s1 (chapter_number ob1))"
    by (simp add: chapter_base_def cur assms(1))
  have sb: "section_base ob2 s1 = the (sections s1 (section_number ob1))"
    by (simp add: section_base_def cur assms(2))
  have c2: "chapters s2 (chapter_number ob1) = Some ((chapter_base ob1 s)
           \<lparr> c_sections := insert (section_number ob1) (c_sections (chapter_base ob1 s)),
             c_verses := c_verses (chapter_base ob1 s) @ [verse_id_of ob1, verse_id_of ob2] \<rparr>)"
    unfolding s2 by (simp add: ingested_def [of page_id ob2 s1] cb c1 assms(1,2))
  have x2: "sections s2 (section_number ob1) = Some ((section_base ob1 s)
           \<lparr> s_chapters := insert (chapter_number ob1) (s_chapters (section_base ob1 s)),
             s_verses := s_verses (section_base ob1 s) @ [verse_id_of ob1, verse_id_of ob2] \<rparr>)"
    unfolding s2 by (simp add: ingested_def [of page_id ob2 s1] sb x1 assms(1,2))
  have p2: "pages s2 page_id = Some (p
               \<lparr> p_sections := insert (section_number ob1) (p_sections p),
                 p_chapters := insert (chapter_number ob1) (p_chapters p),
                 p_verses := p_verses p @ [verse_id_of ob1, verse_id_of ob2] \<rparr>)"
    unfolding s2 by (simp add: ingested_def [of page_id ob2 s1] p1 assms(1,2))
  from c1 c2 x1 x2 p p1 p2 show ?thesis by blast
qed

theorem repeated_context_witness:
  "chapter_number (synthetic 1 1 2) = chapter_number (synthetic 1 1 1)
   \<and> section_number (synthetic 1 1 2) = section_number (synthetic 1 1 1)
   \<and> ingest 1 (synthetic 1 1 1) (final_state (new_page 1 init_state)) =
       Inr (ingested 1 (synthetic 1 1 1) (final_state (new_page 1 init_state)))
   \<and> ingest 1 (synthetic 1 1 2) (ingested 1 (synthetic 1 1 1) (final_state (new_page 1 init_state))) =
       Inr (ingested 1 (synthetic 1 1 2) (ingested 1 (synthetic 1 1 1) (final_state (new_page 1 init_state))))
   \<and> map_option c_sections (chapters (ingested 1 (synthetic 1 1 2)
         (ingested 1 (synthetic 1 1 1) (final_state (new_page 1 init_state)))) 1) = Some {1}
   \<and> map_option c_verses (chapters (ingested 1 (synthetic 1 1 2)
         (ingested 1 (synthetic 1 1 1) (final_state (new_page 1 init_state)))) 1) = Some [''1:1'', ''1:2'']
   \<and> map_option p_chapters (pages (ingested 1 (synthetic 1 1 2)
         (ingested 1 (synthetic 1 1 1) (final_state (new_page 1 init_state)))) 1) = Some {1}
   \<and> map_option p_verses (pages (ingested 1 (synthetic 1 1 2)
         (ingested 1 (synthetic 1 1 1) (final_state (new_page 1 init_state)))) 1) = Some [''1:1'', ''1:2'']"
proof -
  let ?s0 = "final_state (new_page 1 init_state)"
  let ?s1 = "ingested 1 (synthetic 1 1 1) ?s0"
  let ?s2 = "ingested 1 (synthetic 1 1 2) ?s1"
  have e1: "chapter_number (synthetic 1 1 2) = chapter_number (synthetic 1 1 1)"
    and e2: "section_number (synthetic 1 1 2) = section_number (synthetic 1 1 1)"
    by (simp_all add: synthetic_def)
  have i1: "ingest 1 (synthetic 1 1 1) ?s0 = Inr ?s1"
    by (simp add: ingest_Inr_iff can_ingest_def new_page_def init_state_def synthetic_def)
  have i2: "ingest 1 (synthetic 1 1 2) ?s1 = Inr ?s2"
    by (simp add: ingest_Inr_iff can_ingest_def ingested_def new_page_def init_state_def synthetic_def)
  have p0: "pages ?s0 1 = Some \<lparr> p_id = 1, p_number = 1, p_verses = [], p_chapters = {}, p_sections = {} \<rparr>"
    by (simp add: new_page_def)
  have cb: "chapter_base (synthetic 1 1 1) ?s0 = new_chapter (synthetic 1 1 1)"
    by (simp add: chapter_base_def new_page_def init_state_def synthetic_def)
  have ids: "verse_id_of (synthetic 1 1 1) = ''1:1''" "verse_id_of (synthetic 1 1 2) = ''1:2''"
    by (simp_all add: eval_defs)
  have nums: "chapter_number (synthetic 1 1 1) = 1" "section_number (synthetic 1 1 1) = 1"
    by (simp_all add: synthetic_def)
  from repeated_context [OF e1 e2 i1 i2] p0 cb ids nums e1 e2 i1 i2
  show ?thesis by (simp add: new_chapter_def)
qed

subsection \<open>The three-observation scenario\<close>

text \<open>
  The scenario of claim C1 gives chapter 1 an empty pages list, not \<open>[1]\<close>: the append
  after the verse loop goes to the chapter the pointer names then, chapter 2.
\<close>

theorem scenario_chapter_pages_counterexample:
  "map_option c_pages (chapters (final_state (page_loop scenario_pages init_state)) 1) \<noteq> Some [1]"
  by (simp add: eval_defs)

text \<open>
  Claim C1, amended. The scenario runs without an exception and yields: chapters with keys
  1 and 2; chapter 1 with verses \<open>1:1, 1:2\<close> and no page; chapter 2 with verse \<open>2:1\<close>
  and pages \<open>[1]\<close>; page 1 with verses \<open>1:1, 1:2, 2:1\<close>, chapters \<open>{1, 2}\<close> and
  sections \<open>{1}\<close>; section 1 with chapters \<open>{1, 2}\<close> and pages \<open>[1]\<close>.
\<close>

theorem scenario_outcome:
  "page_loop scenario_pages init_state = Inr scenario_state
   \<and> dom (chapters scenario_state) = {1, 2}
   \<and> map_option c_verses (chapters scenario_state 1) = Some [''1:1'', ''1:2'']
   \<and> map_option c_pages (chapters scenario_state 1) = Some []
   \<and> map_option c_verses (chapters scenario_state 2) = Some [''2:1'']
   \<and> map_option c_pages (chapters scenario_state 2) = Some [1]
   \<and> map_option p_verses (pages scenario_state 1) = Some [''1:1'', ''1:2'', ''2:1'']
   \<and> map_option p_chapters (pages scenario_state 1) = Some {1, 2}
   \<and> map_option p_sections (pages scenario_state 1) = Some {1}
   \<and> map_option s_chapters (sections scenario_state 1) = Some {1, 2}
   \<and> map_option s_pages (sections scenario_state 1) = Some [1]"
proof -
  have "dom (chapters scenario_state) = {1, 2}"
    by (auto simp: scenario_state_def eval_defs split: if_splits)
  moreover have "map_option c_verses (chapters scenario_state 1) = Some [''1:1'', ''1:2'']"
    by (simp add: scenario_state_def eval_defs)
  moreover have "map_option c_pages (chapters scenario_state 1) = Some []"
    by (simp add: scenario_state_def eval_defs)
  moreover have "map_option c_verses (chapters scenario_state 2) = Some [''2:1'']"
    by (simp add: scenario_state_def eval_defs)
  moreover have "map_option c_pages (chapters scenario_state 2) = Some [1]"
    by (simp add: scenario_state_def eval_defs)
  moreover have "map_option p_verses (pages scenario_state 1) = Some [''1:1'', ''1:2'', ''2:1'']"
    by (simp add: scenario_state_def eval_defs)
  moreover have "map_option p_chapters (pages scenario_state 1) = Some {1, 2}"
    by (auto simp: scenario_state_def eval_defs)
  moreover have "map_option p_sections (pages scenario_state 1) = Some {1}"
    by (simp add: scenario_state_def eval_defs)
  moreover have "map_option s_chapters (sections scenario_state 1) = Some {1, 2}"
    by (auto simp: scenario_state_def eval_defs)
  moreover have "map_option s_pages (sections scenario_state 1) = Some [1]"
    by (simp add: scenario_state_def eval_defs)
  ultimately show ?thesis using scenario_runs by blast
qed

subsection \<open>Change detection\<close>

text \<open>
  Against claim C2: chapter 1 is already a key, holding verse \<open>1:1\<close>, when the observation
  (chapter 1, verse 2) arrives with the pointer on chapter 2. Afterwards chapter 1 holds
  verse \<open>1:2\<close> only: its record was replaced.
\<close>

theorem chapter_revisit_counterexample:
  "chapter_number (synthetic 1 1 2) \<noteq> current_chapter revisit_state
   \<and> map_option c_verses (chapters revisit_state 1) = Some [''1:1'']
   \<and> map_option c_verses (chapters (final_state (ingest 1 (synthetic 1 1 2) revisit_state)) 1)
       = Some [''1:2'']"
  by (simp add: revisit_state_def eval_defs)

text \<open>
  Claim C2, amended. When the observation's chapter (section) number differs from the
  pointer, the record stored under that number afterwards is a new one, holding only
  this observation's verse and section (chapter), whatever was stored there before. When
  it equals the pointer, the existing record is kept and extended. Records under other
  keys are untouched.
\<close>

theorem change_detection_replaces:
  assumes "ingest page_id ob s = Inr s'"
  shows "(chapter_number ob \<noteq> current_chapter s \<longrightarrow>
            chapters s' (chapter_number ob) =
              Some ((new_chapter ob)\<lparr> c_sections := {section_number ob},
                                      c_verses := [verse_id_of ob] \<rparr>))
       \<and> (chapter_number ob = current_chapter s \<longrightarrow>
            (\<exists>c. chapters s (chapter_number ob) = Some c \<and>
                 chapters s' (chapter_number ob) =
                   Some (c\<lparr> c_sections := insert (section_number ob) (c_sections c),
                           c_verses := c_verses c @ [verse_id_of ob] \<rparr>)))
       \<and> (\<forall>k. k \<noteq> chapter_number ob \<longrightarrow> chapters s' k = chapters s k)
       \<and> (section_number ob \<noteq> current_section s \<longrightarrow>
            sections s' (section_number ob) =
              Some ((new_section ob)\<lparr> s_chapters := {chapter_number ob},
                                      s_verses := [verse_id_of ob] \<rparr>))
       \<and> (section_number ob = current_section s \<longrightarrow>
            (\<exists>x. sections s (section_number ob) = Some x \<and>
                 sections s' (section_number ob) =
                   Some (x\<lparr> s_chapters := insert (chapter_number ob) (s_chapters x),
                           s_verses := s_verses x @ [verse_id_of ob] \<rparr>)))
       \<and> (\<forall>k. k \<noteq> section_number ob \<longrightarrow> sections s' k = sections s k)"
proof -
  from assms have ci: "can_ingest page_id ob s" and s': "s' = ingested page_id ob s"
    by (simp_all add: ingest_Inr_iff)
  show ?thesis
    using ci unfolding s'
    by (auto simp: ingested_def can_ingest_def chapter_base_def section_base_def
          new_chapter_def new_section_def)
qed

theorem change_detection_replaces_witness:
  "ingest 1 (synthetic 1 1 2) revisit_state = Inr (ingested 1 (synthetic 1 1 2) revisit_state)
   \<and> chapter_number (synthetic 1 1 2) \<noteq> current_chapter revisit_state
   \<and> chapters revisit_state 1 \<noteq> None
   \<and> chapters (ingested 1 (synthetic 1 1 2) revisit_state) 1 =
       Some ((new_chapter (synthetic 1 1 2))\<lparr> c_sections := {1}, c_verses := [''1:2''] \<rparr>)
   \<and> section_number (synthetic 1 1 2) = current_section revisit_state
   \<and> map_option s_verses (sections (ingested 1 (synthetic 1 1 2) revisit_state) 1) =
       Some [''1:1'', ''2:1'', ''1:2'']
   \<and> chapters (ingested 1 (synthetic 1 1 2) revisit_state) 2 = chapters revisit_state 2"
proof -
  have "1 \<in> dom (pages revisit_state)" and "current_chapter revisit_state = 2"
    and "1 \<in> dom (sections revisit_state)"
    by (simp_all add: revisit_state_def eval_defs)
  then have i: "ingest 1 (synthetic 1 1 2) revisit_state = Inr (ingested 1 (synthetic 1 1 2) revisit_state)"
    by (simp add: ingest_Inr_iff can_ingest_def synthetic_def)
  have a: "chapter_number (synthetic 1 1 2) \<noteq> current_chapter revisit_state"
    and b: "chapters revisit_state 1 \<noteq> None"
    and c: "section_number (synthetic 1 1 2) = current_section revisit_state"
    and d: "map_option s_verses (sections revisit_state 1) = Some [''1:1'', ''2:1'']"
    by (simp_all add: revisit_state_def eval_defs)
  have e: "verse_id_of (synthetic 1 1 2) = ''1:2''" "section_number (synthetic 1 1 2) = 1"
    "chapter_number (synthetic 1 1 2) = 1"
    by (simp_all add: eval_defs)
  from change_detection_replaces [OF i] i a b c d e show ?thesis
    by auto
qed

text \<open>
  A property of the state and of the observations and page numbers still to come, that a
  successful step hands on, holds at the end of a run without exception.
\<close>

lemma verse_loop_success:
  assumes ing: "\<And>ob s F. I s (ob # F) \<Longrightarrow> can_ingest page_id ob s \<Longrightarrow> I (ingested page_id ob s) F"
    and "I s (event_observations evs @ G)"
    and "verse_loop page_id evs s = Inr s'"
  shows "I s' G"
  using assms(2,3)
proof (induction evs arbitrary: s)
  case Nil
  then show ?case by simp
next
  case (Cons ev evs)
  from Cons.prems(2) obtain ob where ev: "ev = Observed ob"
    by (cases ev) auto
  with Cons.prems(2) have ci: "can_ingest page_id ob s"
    and rest: "verse_loop page_id evs (ingested page_id ob s) = Inr s'"
    by (auto simp: ingest_Inr_iff split: sum.splits)
  from Cons.prems(1) ev have "I s (ob # (event_observations evs @ G))" by simp
  then have "I (ingested page_id ob s) (event_observations evs @ G)"
    using ci by (rule ing)
  then show ?case using rest by (rule Cons.IH)
qed

lemma scrape_page_Inr:
  assumes "scrape_page p s = Inr s'"
  obtains s1 s2 where "new_page (page_number p) s = Inr s1"
    and "verse_loop (page_number p) (page_events p) s1 = Inr s2"
    and "end_page (page_number p) s2 = Inr s'"
  using assms by (auto simp: scrape_page_def wait_page_def split: sum.splits option.splits)

lemma page_loop_success:
  assumes ing: "\<And>page_id ob s F P. I s (ob # F) P \<Longrightarrow> can_ingest page_id ob s
                  \<Longrightarrow> I (ingested page_id ob s) F P"
    and np: "\<And>page_id s s' F P. I s F (page_id # P) \<Longrightarrow> new_page page_id s = Inr s' \<Longrightarrow> I s' F P"
    and ep: "\<And>page_id s s' F P. I s F P \<Longrightarrow> end_page page_id s = Inr s' \<Longrightarrow> I s' F P"
    and "I s (all_observations ps) (map page_number ps)"
    and "page_loop ps s = Inr s'"
  shows "I s' [] []"
  using assms(4,5)
proof (induction ps arbitrary: s)
  case Nil
  then show ?case by simp
next
  case (Cons p ps)
  from Cons.prems(2) obtain t where t: "scrape_page p s = Inr t" and rest: "page_loop ps t = Inr s'"
    by (auto split: sum.splits)
  from t obtain s1 s2 where s1: "new_page (page_number p) s = Inr s1"
    and s2: "verse_loop (page_number p) (page_events p) s1 = Inr s2"
    and s3: "end_page (page_number p) s2 = Inr t"
    by (rule scrape_page_Inr)
  from Cons.prems(1)
  have "I s (event_observations (page_events p) @ all_observations ps)
          (page_number p # map page_number ps)" by simp
  then have i1: "I s1 (event_observations (page_events p) @ all_observations ps) (map page_number ps)"
    using s1 by (rule np)
  have "I s2 (all_observations ps) (map page_number ps)"
  proof (rule verse_loop_success [where I = "\<lambda>s F. I s F (map page_number ps)"
          and page_id = "page_number p" and evs = "page_events p" and s = s1])
    show "I s1 (event_observations (page_events p) @ all_observations ps) (map page_number ps)"
      by (rule i1)
    show "verse_loop (page_number p) (page_events p) s1 = Inr s2" by fact
    show "\<And>ob s F. I s (ob # F) (map page_number ps) \<Longrightarrow> can_ingest (page_number p) ob s
            \<Longrightarrow> I (ingested (page_number p) ob s) F (map page_number ps)"
      by (rule ing)
  qed
  then have "I t (all_observations ps) (map page_number ps)"
    using s3 by (rule ep)
  then show ?case using rest by (rule Cons.IH)
qed

subsection \<open>Explanation records\<close>

lemma explanations_ar_scrape: "explanations_ar (final_state (page_loop ps init_state))"
proof (rule scrape_invariant)
  show "explanations_ar init_state" by (simp add: explanations_ar_def init_state_def)
next
  fix page_id ob s assume a: "explanations_ar s"
  show "explanations_ar (final_state (ingest page_id ob s))"
    unfolding ingest_def
    by (rule run_steps_final [where P = explanations_ar, OF _ a])
       (auto simp: explanations_ar_def step_defs split: option.splits if_splits)
next
  fix page_id s assume a: "explanations_ar s"
  show "explanations_ar (final_state (end_page page_id s))"
    unfolding end_page_def
    by (rule run_steps_final [where P = explanations_ar, OF _ a])
       (auto simp: explanations_ar_def step_defs split: option.splits if_splits)
qed (simp add: new_page_def explanations_ar_def)

lemma explanations_keys:
  assumes "page_loop ps s = Inr s'"
  shows "dom (explanations s') = dom (explanations s) \<union> set (map verse_id_of (all_observations ps))"
proof -
  let ?I = "\<lambda>(t::state) F (P::int list). dom (explanations t) \<union> set (map verse_id_of F)
              = dom (explanations s) \<union> set (map verse_id_of (all_observations ps))"
  have "?I s' [] []"
  proof (rule page_loop_success [where I = ?I, OF _ _ _ _ assms])
    show "?I s (all_observations ps) (map page_number ps)" by simp
  next
    fix page_id ob t F P
    assume "?I t (ob # F) P"
    then show "?I (ingested page_id ob t) F P" by (simp add: ingested_def)
  next
    fix page_id t t' F P
    assume "?I t F (page_id # P)" and "new_page page_id t = Inr t'"
    then show "?I t' F P" by (clarsimp simp: new_page_def)
  next
    fix page_id t t' F P
    assume "?I t F P" and "end_page page_id t = Inr t'"
    then show "?I t' F P" by (clarsimp simp: end_page_Inr_iff)
  qed
  then show ?thesis by simp
qed

text \<open>
  Against claim C4: two observations of the same verse leave one explanation record, not
  two, since the second assignment to \<open>explanations[explanation_id]\<close> overwrites the first.
\<close>

theorem explanation_count_counterexample:
  "card (dom (explanations (final_state (page_loop duplicate_pages init_state))))
     \<noteq> length (all_observations duplicate_pages)"
  by (simp add: duplicate_pages_def eval_defs)

text \<open>
  Claim C4, amended. After a run without exception the keys of the explanations mapping
  are exactly the verse ids of the observations: one record per distinct verse id, hence
  as many records as observations when no verse id repeats. Every record's language
  is \<open>AR\<close>.
\<close>

theorem explanation_records:
  assumes "page_loop ps init_state = Inr s"
  shows "dom (explanations s) = set (map verse_id_of (all_observations ps))
       \<and> card (dom (explanations s)) = length (remdups (map verse_id_of (all_observations ps)))
       \<and> (distinct (map verse_id_of (all_observations ps)) \<longrightarrow>
            card (dom (explanations s)) = length (all_observations ps))
       \<and> (\<forall>k e. explanations s k = Some e \<longrightarrow> e_language e = ''AR'')"
proof -
  have d: "dom (explanations s) = set (map verse_id_of (all_observations ps))"
    using explanations_keys [OF assms] by (simp add: init_state_def)
  have c: "card (dom (explanations s)) = length (remdups (map verse_id_of (all_observations ps)))"
    unfolding d by (simp add: length_remdups_card_conv)
  have n: "distinct (map verse_id_of (all_observations ps)) \<longrightarrow>
            card (dom (explanations s)) = length (all_observations ps)"
    using distinct_card [of "map verse_id_of (all_observations ps)"] by (simp add: d)
  have "explanations_ar s"
    using explanations_ar_scrape [of ps] assms by simp
  with d c n show ?thesis by (simp add: explanations_ar_def)
qed

theorem explanation_records_witness:
  "page_loop scenario_pages init_state = Inr scenario_state
   \<and> dom (explanations scenario_state) = set (map verse_id_of (all_observations scenario_pages))
   \<and> distinct (map verse_id_of (all_observations scenario_pages))
   \<and> card (dom (explanations scenario_state)) = 3
   \<and> map_option e_language (explanations scenario_state ''2:1'') = Some ''AR''"
proof -
  have d: "distinct (map verse_id_of (all_observations scenario_pages))"
    by (simp add: eval_defs)
  have l: "length (all_observations scenario_pages) = 3"
    by (simp add: scenario_pages_def)
  have e: "explanations scenario_state ''2:1'' \<noteq> None"
    by (simp add: scenario_state_def eval_defs)
  from explanation_records [OF scenario_runs] scenario_runs d l e show ?thesis
    by auto
qed

subsection \<open>Verse ids determine chapter and verse number\<close>

lemma digit_char_digit: "d < 10 \<Longrightarrow> digit_char d \<in> set ''0123456789''"
  unfolding digit_char_def by (rule nth_mem) simp

lemma digit_char_inj:
  assumes "a < 10" and "b < 10" and "digit_char a = digit_char b"
  shows "a = b"
proof -
  have "distinct ''0123456789''" by simp
  moreover have "a < length ''0123456789''" "b < length ''0123456789''"
    using assms by simp_all
  ultimately show ?thesis
    using assms(3) unfolding digit_char_def by (simp only: nth_eq_iff_index_eq)
qed

lemma str_nat_digits: "set (str_nat n) \<subseteq> set ''0123456789''"
proof (induction n rule: str_nat.induct)
  case (1 n)
  show ?case
  proof (cases "n < 10")
    case True
    then show ?thesis
      using digit_char_digit [of n] by (subst str_nat.simps) simp
  next
    case False
    have "n mod 10 < 10" by simp
    then have "digit_char (n mod 10) \<in> set ''0123456789''" by (rule digit_char_digit)
    with False 1 show ?thesis
      by (subst str_nat.simps) simp
  qed
qed

lemma str_nat_nonempty: "str_nat n \<noteq> []"
  by (subst str_nat.simps) simp

lemma str_nat_inj: "str_nat n = str_nat m \<Longrightarrow> n = m"
proof (induction n arbitrary: m rule: str_nat.induct)
  case (1 n)
  show ?case
  proof (cases "n < 10")
    case n: True
    show ?thesis
    proof (cases "m < 10")
      case True
      with n "1.prems" have "digit_char n = digit_char m"
        by (simp add: str_nat.simps [of n] str_nat.simps [of m])
      with n True show ?thesis by (rule digit_char_inj)
    next
      case False
      with n "1.prems" have "[digit_char n] = str_nat (m div 10) @ [digit_char (m mod 10)]"
        by (simp add: str_nat.simps [of n] str_nat.simps [of m])
      then show ?thesis using str_nat_nonempty [of "m div 10"] by simp
    qed
  next
    case n: False
    show ?thesis
    proof (cases "m < 10")
      case True
      with n "1.prems" have "str_nat (n div 10) @ [digit_char (n mod 10)] = [digit_char m]"
        by (simp add: str_nat.simps [of n] str_nat.simps [of m])
      then show ?thesis using str_nat_nonempty [of "n div 10"] by simp
    next
      case False
      with n "1.prems"
      have "str_nat (n div 10) @ [digit_char (n mod 10)] = str_nat (m div 10) @ [digit_char (m mod 10)]"
        by (simp add: str_nat.simps [of n] str_nat.simps [of m])
      then have a: "str_nat (n div 10) = str_nat (m div 10)"
        and b: "digit_char (n mod 10) = digit_char (m mod 10)" by simp_all
      from a have "n div 10 = m div 10" using "1.IH" n by simp
      moreover have "n mod 10 = m mod 10"
        by (rule digit_char_inj [OF _ _ b]) simp_all
      ultimately show ?thesis by (metis div_mult_mod_eq)
    qed
  qed
qed

lemma str_nat_no_minus: "CHR ''-'' \<notin> set (str_nat n)"
proof
  assume "CHR ''-'' \<in> set (str_nat n)"
  then have "CHR ''-'' \<in> set ''0123456789''"
    using str_nat_digits [of n] by (rule rev_subsetD)
  then show False by simp
qed

lemma str_nat_no_colon: "CHR '':'' \<notin> set (str_nat n)"
proof
  assume "CHR '':'' \<in> set (str_nat n)"
  then have "CHR '':'' \<in> set ''0123456789''"
    using str_nat_digits [of n] by (rule rev_subsetD)
  then show False by simp
qed

lemma str_int_no_colon: "CHR '':'' \<notin> set (str_int i)"
  by (simp add: str_int_def str_nat_no_colon)

lemma str_int_inj: "str_int i = str_int j \<Longrightarrow> i = j"
proof -
  assume eq: "str_int i = str_int j"
  have no_minus: "\<And>n r. str_nat n \<noteq> CHR ''-'' # r"
  proof
    fix n r assume "str_nat n = CHR ''-'' # r"
    then have "CHR ''-'' \<in> set (str_nat n)" by simp
    then show False by (simp add: str_nat_no_minus)
  qed
  show "i = j"
  proof (cases "i < 0")
    case i: True
    show ?thesis
    proof (cases "j < 0")
      case True
      with i eq have "str_nat (nat (- i)) = str_nat (nat (- j))" by (simp add: str_int_def)
      then have "nat (- i) = nat (- j)" by (rule str_nat_inj)
      with i True show ?thesis by simp
    next
      case False
      with i eq have "str_nat (nat j) = CHR ''-'' # str_nat (nat (- i))"
        by (simp add: str_int_def)
      with no_minus show ?thesis by blast
    qed
  next
    case i: False
    show ?thesis
    proof (cases "j < 0")
      case True
      with i eq have "str_nat (nat i) = CHR ''-'' # str_nat (nat (- j))"
        by (simp add: str_int_def)
      with no_minus show ?thesis by blast
    next
      case False
      with i eq have "str_nat (nat i) = str_nat (nat j)" by (simp add: str_int_def)
      then have "nat i = nat j" by (rule str_nat_inj)
      with i False show ?thesis by simp
    qed
  qed
qed

lemma verse_id_of_eq_iff:
  "verse_id_of a = verse_id_of b \<longleftrightarrow>
     chapter_number a = chapter_number b \<and> verse_number a = verse_number b"
proof
  assume eq: "verse_id_of a = verse_id_of b"
  have h1: "CHR '':'' \<notin> set (str_int (chapter_number a))"
    and h2: "CHR '':'' \<notin> set (str_int (verse_number a))"
    by (rule str_int_no_colon)+
  from eq have "str_int (chapter_number a) @ CHR '':'' # str_int (verse_number a)
              = str_int (chapter_number b) @ CHR '':'' # str_int (verse_number b)"
    by (simp add: verse_id_of_def)
  then have "str_int (chapter_number a) = str_int (chapter_number b)
             \<and> str_int (verse_number a) = str_int (verse_number b)"
    by (rule append_Cons_eq_iff [THEN iffD1, OF h1 h2])
  then show "chapter_number a = chapter_number b \<and> verse_number a = verse_number b"
    by (auto dest: str_int_inj)
next
  assume "chapter_number a = chapter_number b \<and> verse_number a = verse_number b"
  then show "verse_id_of a = verse_id_of b" by (simp add: verse_id_of_def)
qed

subsection \<open>The sets of a page\<close>

lemma verse_chapters_iff:
  "c \<in> verse_chapters s vids \<longleftrightarrow> (\<exists>k \<in> set vids. \<exists>v. verses s k = Some v \<and> v_chapter v = c)"
  unfolding verse_chapters_def
  by (induction vids) (auto split: option.splits)

lemma verse_sections_iff:
  "x \<in> verse_sections s vids \<longleftrightarrow> (\<exists>k \<in> set vids. \<exists>v. verses s k = Some v \<and> v_section v = x)"
  unfolding verse_sections_def
  by (induction vids) (auto split: option.splits)

lemma verse_chapters_update:
  assumes "\<And>v. verses s k = Some v \<Longrightarrow> v_chapter v = v_chapter r"
    and "set vids \<subseteq> dom (verses s)"
    and "verses s' = (verses s)(k \<mapsto> r)"
  shows "verse_chapters s' vids = verse_chapters s vids"
proof (rule set_eqI)
  fix c
  show "c \<in> verse_chapters s' vids \<longleftrightarrow> c \<in> verse_chapters s vids"
    unfolding verse_chapters_iff assms(3)
    using assms(1,2) by (auto split: if_splits) (metis domD subsetD)+
qed

lemma verse_sections_update:
  assumes "\<And>v. verses s k = Some v \<Longrightarrow> v_section v = v_section r"
    and "set vids \<subseteq> dom (verses s)"
    and "verses s' = (verses s)(k \<mapsto> r)"
  shows "verse_sections s' vids = verse_sections s vids"
proof (rule set_eqI)
  fix c
  show "c \<in> verse_sections s' vids \<longleftrightarrow> c \<in> verse_sections s vids"
    unfolding verse_sections_iff assms(3)
    using assms(1,2) by (auto split: if_splits) (metis domD subsetD)+
qed

lemma verse_chapters_snoc:
  "verses s k = Some v \<Longrightarrow> verse_chapters s (vids @ [k]) = insert (v_chapter v) (verse_chapters s vids)"
  by (rule set_eqI) (auto simp: verse_chapters_iff)

lemma verse_sections_snoc:
  "verses s k = Some v \<Longrightarrow> verse_sections s (vids @ [k]) = insert (v_section v) (verse_sections s vids)"
  by (rule set_eqI) (auto simp: verse_sections_iff)


lemma verses_ingested:
  "verses (ingested page_id ob s) = (verses s)(verse_id_of ob \<mapsto>
     \<lparr> v_id = verse_id_of ob, v_number = verse_number ob,
       v_arabic_unicodes = arabic_unicodes ob, v_explanations = [verse_id_of ob],
       v_page = page_id, v_section = section_number ob,
       v_chapter = chapter_number ob \<rparr>)"
  by (simp add: ingested_def)

lemma recorded_chapter_ingested:
  assumes "recorded_chapter s"
  shows "recorded_chapter (ingested page_id ob s)"
  unfolding recorded_chapter_def
proof (intro allI impI)
  fix ob' v
  assume v: "verses (ingested page_id ob s) (verse_id_of ob') = Some v"
  show "v_chapter v = chapter_number ob'"
  proof (cases "verse_id_of ob' = verse_id_of ob")
    case True
    with v have "v_chapter v = chapter_number ob" by (auto simp: verses_ingested)
    moreover from True have "chapter_number ob' = chapter_number ob"
      by (simp add: verse_id_of_eq_iff)
    ultimately show ?thesis by simp
  next
    case False
    with v have "verses s (verse_id_of ob') = Some v" by (simp add: verses_ingested)
    with assms show ?thesis unfolding recorded_chapter_def by blast
  qed
qed

lemma recorded_section_ingested:
  assumes "recorded_section s (ob # F)" and "same_section (ob # F)"
  shows "recorded_section (ingested page_id ob s) F"
  unfolding recorded_section_def
proof (intro ballI allI impI)
  fix ob' v
  assume ob': "ob' \<in> set F"
    and v: "verses (ingested page_id ob s) (verse_id_of ob') = Some v"
  show "v_section v = section_number ob'"
  proof (cases "verse_id_of ob' = verse_id_of ob")
    case True
    with v have "v_section v = section_number ob" by (auto simp: verses_ingested)
    moreover have "ob' \<in> set (ob # F)" "ob \<in> set (ob # F)" using ob' by simp_all
    with assms(2) True have "section_number ob' = section_number ob"
      unfolding same_section_def by blast
    ultimately show ?thesis by simp
  next
    case False
    with v have "verses s (verse_id_of ob') = Some v" by (simp add: verses_ingested)
    moreover have "ob' \<in> set (ob # F)" using ob' by simp
    ultimately show ?thesis using assms(1) unfolding recorded_section_def by blast
  qed
qed

lemma same_section_tail: "same_section (ob # F) \<Longrightarrow> same_section F"
  unfolding same_section_def by (meson list.set_intros(2))

lemma page_chapters_ingested:
  assumes ok: "page_chapters_ok s" and rc: "recorded_chapter s"
    and ci: "can_ingest page_id ob s"
  shows "page_chapters_ok (ingested page_id ob s)"
  unfolding page_chapters_ok_def
proof (intro allI impI)
  fix k p'
  let ?s' = "ingested page_id ob s"
  let ?r = "\<lparr> v_id = verse_id_of ob, v_number = verse_number ob,
            v_arabic_unicodes = arabic_unicodes ob, v_explanations = [verse_id_of ob],
            v_page = page_id, v_section = section_number ob,
            v_chapter = chapter_number ob \<rparr>"
  assume p': "pages ?s' k = Some p'"
  have vs: "verses ?s' = (verses s)(verse_id_of ob \<mapsto> ?r)"
    by (rule verses_ingested)
  have old: "\<And>v. verses s (verse_id_of ob) = Some v \<Longrightarrow> v_chapter v = v_chapter ?r"
    using rc by (simp add: recorded_chapter_def)
  have keep: "verse_chapters ?s' vids = verse_chapters s vids"
    if "set vids \<subseteq> dom (verses s)" for vids
    using old that vs by (rule verse_chapters_update)
  show "set (p_verses p') \<subseteq> dom (verses ?s') \<and> p_chapters p' = verse_chapters ?s' (p_verses p')"
  proof (cases "k = page_id")
    case False
    with p' have p: "pages s k = Some p'" by (simp add: ingested_def)
    with ok have sub: "set (p_verses p') \<subseteq> dom (verses s)"
      and eq: "p_chapters p' = verse_chapters s (p_verses p')"
      by (auto simp: page_chapters_ok_def)
    from sub have "set (p_verses p') \<subseteq> dom (verses ?s')" unfolding vs by auto
    moreover from eq keep [OF sub] have "p_chapters p' = verse_chapters ?s' (p_verses p')" by simp
    ultimately show ?thesis by simp
  next
    case True
    from ci obtain p where p: "pages s page_id = Some p" by (auto simp: can_ingest_def)
    with ok have sub: "set (p_verses p) \<subseteq> dom (verses s)"
      and eq: "p_chapters p = verse_chapters s (p_verses p)"
      by (auto simp: page_chapters_ok_def)
    from p' True p have p'_eq: "p_verses p' = p_verses p @ [verse_id_of ob]"
      "p_chapters p' = insert (chapter_number ob) (p_chapters p)"
      by (auto simp: ingested_def)
    have here: "verses ?s' (verse_id_of ob) = Some ?r" unfolding vs by simp
    have "set (p_verses p') \<subseteq> dom (verses ?s')"
      using sub unfolding p'_eq vs by auto
    moreover have "p_chapters p' = verse_chapters ?s' (p_verses p')"
      unfolding p'_eq verse_chapters_snoc [OF here] keep [OF sub] eq by simp
    ultimately show ?thesis by simp
  qed
qed

lemma page_sections_ingested:
  assumes ok: "page_sections_ok s" and rc: "recorded_section s (ob # F)"
    and ci: "can_ingest page_id ob s"
  shows "page_sections_ok (ingested page_id ob s)"
  unfolding page_sections_ok_def
proof (intro allI impI)
  fix k p'
  let ?s' = "ingested page_id ob s"
  let ?r = "\<lparr> v_id = verse_id_of ob, v_number = verse_number ob,
            v_arabic_unicodes = arabic_unicodes ob, v_explanations = [verse_id_of ob],
            v_page = page_id, v_section = section_number ob,
            v_chapter = chapter_number ob \<rparr>"
  assume p': "pages ?s' k = Some p'"
  have vs: "verses ?s' = (verses s)(verse_id_of ob \<mapsto> ?r)"
    by (rule verses_ingested)
  have old: "\<And>v. verses s (verse_id_of ob) = Some v \<Longrightarrow> v_section v = v_section ?r"
    using rc by (simp add: recorded_section_def)
  have keep: "verse_sections ?s' vids = verse_sections s vids"
    if "set vids \<subseteq> dom (verses s)" for vids
    using old that vs by (rule verse_sections_update)
  show "set (p_verses p') \<subseteq> dom (verses ?s') \<and> p_sections p' = verse_sections ?s' (p_verses p')"
  proof (cases "k = page_id")
    case False
    with p' have p: "pages s k = Some p'" by (simp add: ingested_def)
    with ok have sub: "set (p_verses p') \<subseteq> dom (verses s)"
      and eq: "p_sections p' = verse_sections s (p_verses p')"
      by (auto simp: page_sections_ok_def)
    from sub have "set (p_verses p') \<subseteq> dom (verses ?s')" unfolding vs by auto
    moreover from eq keep [OF sub] have "p_sections p' = verse_sections ?s' (p_verses p')" by simp
    ultimately show ?thesis by simp
  next
    case True
    from ci obtain p where p: "pages s page_id = Some p" by (auto simp: can_ingest_def)
    with ok have sub: "set (p_verses p) \<subseteq> dom (verses s)"
      and eq: "p_sections p = verse_sections s (p_verses p)"
      by (auto simp: page_sections_ok_def)
    from p' True p have p'_eq: "p_verses p' = p_verses p @ [verse_id_of ob]"
      "p_sections p' = insert (section_number ob) (p_sections p)"
      by (auto simp: ingested_def)
    have here: "verses ?s' (verse_id_of ob) = Some ?r" unfolding vs by simp
    have "set (p_verses p') \<subseteq> dom (verses ?s')"
      using sub unfolding p'_eq vs by auto
    moreover have "p_sections p' = verse_sections ?s' (p_verses p')"
      unfolding p'_eq verse_sections_snoc [OF here] keep [OF sub] eq by simp
    ultimately show ?thesis by simp
  qed
qed

lemma page_sets_new_page:
  assumes "new_page page_id s = Inr s'"
  shows "page_chapters_ok s \<Longrightarrow> page_chapters_ok s'"
    and "page_sections_ok s \<Longrightarrow> page_sections_ok s'"
    and "recorded_chapter s \<Longrightarrow> recorded_chapter s'"
    and "recorded_section s F \<Longrightarrow> recorded_section s' F"
proof -
  from assms have s': "s' = s\<lparr>pages := (pages s)(page_id \<mapsto>
       \<lparr> p_id = page_id, p_number = page_id, p_verses = [],
         p_chapters = {}, p_sections = {} \<rparr>)\<rparr>"
    by (simp add: new_page_def)
  show "page_chapters_ok s \<Longrightarrow> page_chapters_ok s'"
    unfolding s' page_chapters_ok_def verse_chapters_def by (simp split: if_splits)
  show "page_sections_ok s \<Longrightarrow> page_sections_ok s'"
    unfolding s' page_sections_ok_def verse_sections_def by (simp split: if_splits)
  show "recorded_chapter s \<Longrightarrow> recorded_chapter s'"
    unfolding s' recorded_chapter_def by simp
  show "recorded_section s F \<Longrightarrow> recorded_section s' F"
    unfolding s' recorded_section_def by simp
qed

lemma page_sets_end_page:
  assumes "end_page page_id s = Inr s'"
  shows "page_chapters_ok s \<Longrightarrow> page_chapters_ok s'"
    and "page_sections_ok s \<Longrightarrow> page_sections_ok s'"
    and "recorded_chapter s \<Longrightarrow> recorded_chapter s'"
    and "recorded_section s F \<Longrightarrow> recorded_section s' F"
proof -
  from assms have v: "verses s' = verses s" and p: "pages s' = pages s"
    by (auto simp: end_page_Inr_iff)
  show "page_chapters_ok s \<Longrightarrow> page_chapters_ok s'"
    unfolding page_chapters_ok_def verse_chapters_def v p by simp
  show "page_sections_ok s \<Longrightarrow> page_sections_ok s'"
    unfolding page_sections_ok_def verse_sections_def v p by simp
  show "recorded_chapter s \<Longrightarrow> recorded_chapter s'"
    unfolding recorded_chapter_def v by simp
  show "recorded_section s F \<Longrightarrow> recorded_section s' F"
    unfolding recorded_section_def v by simp
qed

lemma page_chapters_scrape:
  assumes "page_loop ps init_state = Inr s"
  shows "page_chapters_ok s"
proof -
  let ?I = "\<lambda>(t::state) (F::observation list) (P::int list). page_chapters_ok t \<and> recorded_chapter t"
  have "?I s [] []"
  proof (rule page_loop_success [where I = ?I, OF _ _ _ _ assms])
    show "?I init_state (all_observations ps) (map page_number ps)"
      by (simp add: page_chapters_ok_def recorded_chapter_def init_state_def)
  next
    fix page_id ob t F P
    assume "?I t (ob # F) P" and "can_ingest page_id ob t"
    then show "?I (ingested page_id ob t) F P"
      by (simp add: page_chapters_ingested recorded_chapter_ingested)
  next
    fix page_id t t' F P
    assume "?I t F (page_id # P)" and "new_page page_id t = Inr t'"
    then show "?I t' F P"
      using page_sets_new_page(1,3) by blast
  next
    fix page_id t t' F P
    assume "?I t F P" and "end_page page_id t = Inr t'"
    then show "?I t' F P"
      using page_sets_end_page(1,3) by blast
  qed
  then show ?thesis by simp
qed

lemma page_sections_scrape:
  assumes "page_loop ps init_state = Inr s" and "same_section (all_observations ps)"
  shows "page_sections_ok s"
proof -
  let ?I = "\<lambda>(t::state) (F::observation list) (P::int list).
              page_sections_ok t \<and> recorded_section t F \<and> same_section F"
  have "?I s [] []"
  proof (rule page_loop_success [where I = ?I, OF _ _ _ _ assms(1)])
    show "?I init_state (all_observations ps) (map page_number ps)"
      using assms(2) by (simp add: page_sections_ok_def recorded_section_def init_state_def)
  next
    fix page_id ob t F P
    assume "?I t (ob # F) P" and "can_ingest page_id ob t"
    then show "?I (ingested page_id ob t) F P"
      using page_sections_ingested [of t ob F page_id]
        recorded_section_ingested [of t ob F page_id] same_section_tail [of ob F]
      by simp
  next
    fix page_id t t' F P
    assume "?I t F (page_id # P)" and "new_page page_id t = Inr t'"
    then show "?I t' F P"
      using page_sets_new_page(2,4) by blast
  next
    fix page_id t t' F P
    assume "?I t F P" and "end_page page_id t = Inr t'"
    then show "?I t' F P"
      using page_sets_end_page(2,4) by blast
  qed
  then show ?thesis by simp
qed

text \<open>
  Against claim C5: verse \<open>1:1\<close> is observed on page 1 in section 1 and again on page 2 in
  section 2. Page 1 keeps the section set \<open>{1}\<close>, while the verses mapping now records
  section 2 for the only verse of its list.
\<close>

theorem page_sections_counterexample:
  "map_option p_sections (pages (final_state (page_loop moved_verse_pages init_state)) 1) = Some {1}
   \<and> map_option p_verses (pages (final_state (page_loop moved_verse_pages init_state)) 1)
       = Some [''1:1'']
   \<and> verse_sections (final_state (page_loop moved_verse_pages init_state)) [''1:1''] = {2}"
  by (simp add: moved_verse_pages_def verse_sections_def eval_defs)

text \<open>
  Claim C5, amended. After a run without exception, every page record's verses are keys
  of the verses mapping and its chapter set is the set of chapter numbers recorded for
  them. Its section set is the set of their recorded section numbers when no verse id
  was observed with two different section numbers.
\<close>

theorem page_sets_exact:
  assumes "page_loop ps init_state = Inr s" and "pages s k = Some p"
  shows "set (p_verses p) \<subseteq> dom (verses s)
       \<and> p_chapters p = verse_chapters s (p_verses p)
       \<and> (same_section (all_observations ps) \<longrightarrow> p_sections p = verse_sections s (p_verses p))"
  using page_chapters_scrape [OF assms(1)] page_sections_scrape [OF assms(1)] assms(2)
  by (auto simp: page_chapters_ok_def page_sections_ok_def)

theorem page_sets_exact_witness:
  "page_loop scenario_pages init_state = Inr scenario_state
   \<and> pages scenario_state 1 =
       Some \<lparr> p_id = 1, p_number = 1, p_verses = [''1:1'', ''1:2'', ''2:1''],
              p_chapters = {1, 2}, p_sections = {1} \<rparr>
   \<and> same_section (all_observations scenario_pages)
   \<and> verse_chapters scenario_state [''1:1'', ''1:2'', ''2:1''] = {1, 2}
   \<and> verse_sections scenario_state [''1:1'', ''1:2'', ''2:1''] = {1}"
proof -
  have p: "pages scenario_state 1 =
       Some \<lparr> p_id = 1, p_number = 1, p_verses = [''1:1'', ''1:2'', ''2:1''],
              p_chapters = {1, 2}, p_sections = {1} \<rparr>"
    by (auto simp: scenario_state_def eval_defs)
  have s: "same_section (all_observations scenario_pages)"
    by (simp add: same_section_def scenario_pages_def synthetic_def)
  from page_sets_exact [OF scenario_runs p] p s scenario_runs show ?thesis
    by auto
qed

subsection \<open>Every verse listed once\<close>

lemma runs_ahead_step:
  assumes "runs_ahead known cur (k # ks)" and "k \<noteq> cur \<or> k \<in> known"
  shows "runs_ahead (insert k known) k ks"
proof (cases "k = cur")
  case True
  with assms show ?thesis
    by (auto simp: runs_ahead_def insert_absorb)
next
  case False
  from assms(1) have no: "\<And>j. j \<in> known \<Longrightarrow> j \<noteq> cur \<Longrightarrow> j \<notin> set (k # ks)"
    and d: "distinct (remdups_adj ((if cur \<in> known then [cur] else []) @ k # ks))"
    unfolding runs_ahead_def by blast+
  have d': "distinct (remdups_adj (k # ks))" and cur: "cur \<in> known \<Longrightarrow> cur \<notin> set ks"
    using d False by (auto split: if_splits)
  have "\<And>j. j \<in> insert k known \<Longrightarrow> j \<noteq> k \<Longrightarrow> j \<notin> set ks"
    using no cur by (metis insert_iff list.set_intros(2))
  with d' show ?thesis unfolding runs_ahead_def by auto
qed

lemma runs_ahead_new:
  assumes "runs_ahead known cur (k # ks)" and "k \<noteq> cur"
  shows "k \<notin> known"
  using assms unfolding runs_ahead_def by auto

lemma pages_ingested:
  "pages (ingested page_id ob s) = (pages s)(page_id \<mapsto>
     (the (pages s page_id))\<lparr> p_sections := insert (section_number ob) (p_sections (the (pages s page_id))),
                              p_chapters := insert (chapter_number ob) (p_chapters (the (pages s page_id))),
                              p_verses := p_verses (the (pages s page_id)) @ [verse_id_of ob] \<rparr>)"
  by (simp add: ingested_def)

lemma page_verses_ingested:
  "can_ingest page_id ob s \<Longrightarrow>
   page_verses (ingested page_id ob s) k =
     (if k = page_id then page_verses s k @ [verse_id_of ob] else page_verses s k)"
  by (auto simp: page_verses_def pages_ingested can_ingest_def)

lemma chapter_verses_ingested:
  "can_ingest page_id ob s \<Longrightarrow>
   chapter_verses (ingested page_id ob s) k =
     (if k = chapter_number ob
      then (if k \<noteq> current_chapter s then [] else chapter_verses s k) @ [verse_id_of ob]
      else chapter_verses s k)"
  by (auto simp: chapter_verses_def ingested_def can_ingest_def chapter_base_def new_chapter_def)

lemma section_verses_ingested:
  "can_ingest page_id ob s \<Longrightarrow>
   section_verses (ingested page_id ob s) k =
     (if k = section_number ob
      then (if k \<noteq> current_section s then [] else section_verses s k) @ [verse_id_of ob]
      else section_verses s k)"
  by (auto simp: section_verses_def ingested_def can_ingest_def section_base_def new_section_def)

lemma dom_ingested:
  "can_ingest page_id ob s \<Longrightarrow> dom (pages (ingested page_id ob s)) = dom (pages s)"
  "dom (chapters (ingested page_id ob s)) = insert (chapter_number ob) (dom (chapters s))"
  "dom (sections (ingested page_id ob s)) = insert (section_number ob) (dom (sections s))"
  "dom (verses (ingested page_id ob s)) = insert (verse_id_of ob) (dom (verses s))"
  "current_chapter (ingested page_id ob s) = chapter_number ob"
  "current_section (ingested page_id ob s) = section_number ob"
  by (auto simp: ingested_def can_ingest_def)


lemma fresh_verses_ingested:
  assumes "fresh_verses s (ob # F)"
  shows "fresh_verses (ingested page_id ob s) F"
  using assms unfolding fresh_verses_def dom_ingested by (auto simp: image_iff)

lemma lists_known_ingested:
  assumes "can_ingest page_id ob s" and "lists_known s"
  shows "lists_known (ingested page_id ob s)"
  unfolding lists_known_def
proof
  fix k
  from assms(2) have old: "set (page_verses s k) \<subseteq> dom (verses s)"
    "set (section_verses s k) \<subseteq> dom (verses s)" "set (chapter_verses s k) \<subseteq> dom (verses s)"
    unfolding lists_known_def by simp_all
  have "set (page_verses (ingested page_id ob s) k) \<subseteq> dom (verses (ingested page_id ob s))"
    using old(1) unfolding page_verses_ingested [OF assms(1)] dom_ingested by auto
  moreover have "set (section_verses (ingested page_id ob s) k) \<subseteq> dom (verses (ingested page_id ob s))"
    using old(2) unfolding section_verses_ingested [OF assms(1)] dom_ingested by auto
  moreover have "set (chapter_verses (ingested page_id ob s) k) \<subseteq> dom (verses (ingested page_id ob s))"
    using old(3) unfolding chapter_verses_ingested [OF assms(1)] dom_ingested by auto
  ultimately show "set (page_verses (ingested page_id ob s) k) \<subseteq> dom (verses (ingested page_id ob s)) \<and>
         set (section_verses (ingested page_id ob s) k) \<subseteq> dom (verses (ingested page_id ob s)) \<and>
         set (chapter_verses (ingested page_id ob s) k) \<subseteq> dom (verses (ingested page_id ob s))"
    by simp
qed

lemma count_present: "count_list xs k = 1 \<Longrightarrow> xs \<noteq> []"
  by auto

lemma page_once_ingested:
  assumes ci: "can_ingest page_id ob s" and once: "page_once s" and known: "lists_known s"
    and fresh: "fresh_verses s (ob # F)"
  shows "page_once (ingested page_id ob s)"
  unfolding page_once_def
proof (intro allI impI)
  fix k v
  let ?s' = "ingested page_id ob s"
  assume v: "verses ?s' k = Some v"
  from fresh have "verse_id_of ob \<notin> dom (verses s)" unfolding fresh_verses_def by simp
  with known have absent: "verse_id_of ob \<notin> set (page_verses s page_id)"
    unfolding lists_known_def by blast
  show "count_list (page_verses ?s' (v_page v)) k = 1"
  proof (cases "k = verse_id_of ob")
    case True
    with v have f: "v_page v = page_id" by (auto simp: verses_ingested)
    show ?thesis
      unfolding f True page_verses_ingested [OF ci] using absent by simp
  next
    case False
    with v have "verses s k = Some v" by (simp add: verses_ingested)
    with once have "count_list (page_verses s (v_page v)) k = 1"
      unfolding page_once_def by blast
    then show ?thesis
      unfolding page_verses_ingested [OF ci] using False by auto
  qed
qed

lemma section_once_ingested:
  assumes ci: "can_ingest page_id ob s" and once: "section_once s" and known: "lists_known s"
    and fresh: "fresh_verses s (ob # F)"
    and se: "runs_ahead (dom (sections s)) (current_section s) (map section_number (ob # F))"
  shows "section_once (ingested page_id ob s)"
  unfolding section_once_def
proof (intro allI impI)
  fix k v
  let ?s' = "ingested page_id ob s"
  assume v: "verses ?s' k = Some v"
  from fresh have "verse_id_of ob \<notin> dom (verses s)" unfolding fresh_verses_def by simp
  with known have absent: "\<And>j. verse_id_of ob \<notin> set (section_verses s j)"
    unfolding lists_known_def by blast
  show "count_list (section_verses ?s' (v_section v)) k = 1"
  proof (cases "k = verse_id_of ob")
    case True
    with v have f: "v_section v = section_number ob" by (auto simp: verses_ingested)
    show ?thesis
      unfolding f True section_verses_ingested [OF ci] using absent by simp
  next
    case False
    with v have "verses s k = Some v" by (simp add: verses_ingested)
    with once have c: "count_list (section_verses s (v_section v)) k = 1"
      unfolding section_once_def by blast
    then have "section_verses s (v_section v) \<noteq> []" by (rule count_present)
    then have "v_section v \<in> dom (sections s)"
      by (auto simp: section_verses_def split: option.splits)
    then have "v_section v = section_number ob \<Longrightarrow> section_number ob = current_section s"
      using runs_ahead_new [of "dom (sections s)" "current_section s" "section_number ob"
          "map section_number F"] se by auto
    then show ?thesis
      unfolding section_verses_ingested [OF ci] using c False by auto
  qed
qed

lemma chapter_once_ingested:
  assumes ci: "can_ingest page_id ob s" and once: "chapter_once s" and known: "lists_known s"
    and fresh: "fresh_verses s (ob # F)"
    and ch: "runs_ahead (dom (chapters s)) (current_chapter s) (map chapter_number (ob # F))"
  shows "chapter_once (ingested page_id ob s)"
  unfolding chapter_once_def
proof (intro allI impI)
  fix k v
  let ?s' = "ingested page_id ob s"
  assume v: "verses ?s' k = Some v"
  from fresh have "verse_id_of ob \<notin> dom (verses s)" unfolding fresh_verses_def by simp
  with known have absent: "\<And>j. verse_id_of ob \<notin> set (chapter_verses s j)"
    unfolding lists_known_def by blast
  show "count_list (chapter_verses ?s' (v_chapter v)) k = 1"
  proof (cases "k = verse_id_of ob")
    case True
    with v have f: "v_chapter v = chapter_number ob" by (auto simp: verses_ingested)
    show ?thesis
      unfolding f True chapter_verses_ingested [OF ci] using absent by simp
  next
    case False
    with v have "verses s k = Some v" by (simp add: verses_ingested)
    with once have c: "count_list (chapter_verses s (v_chapter v)) k = 1"
      unfolding chapter_once_def by blast
    then have "chapter_verses s (v_chapter v) \<noteq> []" by (rule count_present)
    then have "v_chapter v \<in> dom (chapters s)"
      by (auto simp: chapter_verses_def split: option.splits)
    then have "v_chapter v = chapter_number ob \<Longrightarrow> chapter_number ob = current_chapter s"
      using runs_ahead_new [of "dom (chapters s)" "current_chapter s" "chapter_number ob"
          "map chapter_number F"] ch by auto
    then show ?thesis
      unfolding chapter_verses_ingested [OF ci] using c False by auto
  qed
qed

lemma chapters_ahead_ingested:
  assumes "can_ingest page_id ob s"
    and "runs_ahead (dom (chapters s)) (current_chapter s) (map chapter_number (ob # F))"
  shows "runs_ahead (dom (chapters (ingested page_id ob s))) (current_chapter (ingested page_id ob s))
           (map chapter_number F)"
  unfolding dom_ingested
  using assms by (auto intro!: runs_ahead_step simp: can_ingest_def)

lemma sections_ahead_ingested:
  assumes "can_ingest page_id ob s"
    and "runs_ahead (dom (sections s)) (current_section s) (map section_number (ob # F))"
  shows "runs_ahead (dom (sections (ingested page_id ob s))) (current_section (ingested page_id ob s))
           (map section_number F)"
  unfolding dom_ingested
  using assms by (auto intro!: runs_ahead_step simp: can_ingest_def)

lemma new_page_keeps:
  assumes "new_page page_id s = Inr s'"
  shows "section_verses s' = section_verses s" and "chapter_verses s' = chapter_verses s"
    and "verses s' = verses s" and "chapters s' = chapters s" and "sections s' = sections s"
    and "current_chapter s' = current_chapter s" and "current_section s' = current_section s"
    and "dom (pages s') = insert page_id (dom (pages s))"
    and "page_verses s' = (page_verses s)(page_id := [])"
  using assms
  by (auto simp: new_page_def page_verses_def section_verses_def chapter_verses_def fun_eq_iff
        split: option.splits if_splits)

lemma new_page_lists_known:
  assumes "new_page page_id s = Inr s'" and "lists_known s"
  shows "lists_known s'"
  using assms(2) unfolding lists_known_def new_page_keeps [OF assms(1)] by simp

lemma new_page_fresh:
  assumes "new_page page_id s = Inr s'" and "page_id \<notin> dom (pages s)"
  shows "page_verses s' = page_verses s"
  using assms
  by (auto simp: new_page_def page_verses_def fun_eq_iff split: option.splits if_splits)

lemma end_page_lists:
  assumes "end_page page_id s = Inr s'"
  shows "page_verses s' = page_verses s" and "section_verses s' = section_verses s"
    and "chapter_verses s' = chapter_verses s" and "verses s' = verses s"
    and "dom (chapters s') = dom (chapters s)" and "dom (sections s') = dom (sections s)"
    and "current_chapter s' = current_chapter s" and "current_section s' = current_section s"
    and "pages s' = pages s"
  using assms
  by (auto simp: end_page_Inr_iff page_verses_def section_verses_def chapter_verses_def fun_eq_iff
        split: option.splits if_splits)

lemma init_lists:
  "lists_known init_state" "page_once init_state" "section_once init_state"
  "chapter_once init_state"
  by (simp_all add: lists_known_def page_once_def section_once_def chapter_once_def
        init_state_def page_verses_def section_verses_def chapter_verses_def)

lemma init_fields:
  "verses init_state = Map.empty" "pages init_state = Map.empty"
  "chapters init_state = Map.empty" "sections init_state = Map.empty"
  by (simp_all add: init_state_def)

lemma page_once_scrape:
  assumes run: "page_loop ps init_state = Inr s"
    and dv: "distinct (map verse_id_of (all_observations ps))"
    and dp: "distinct (map page_number ps)"
  shows "page_once s"
proof -
  let ?I = "\<lambda>(t::state) F P.
      page_once t \<and> lists_known t \<and> fresh_verses t F \<and> fresh_pages t P"
  have "?I s [] []"
  proof (rule page_loop_success [where I = ?I, OF _ _ _ _ run])
    show "?I init_state (all_observations ps) (map page_number ps)"
      using dv dp by (simp add: init_lists init_fields fresh_verses_def fresh_pages_def)
  next
    fix page_id ob t F P
    assume i: "?I t (ob # F) P" and ci: "can_ingest page_id ob t"
    have "page_once (ingested page_id ob t)"
      using ci i by (intro page_once_ingested [where F = F]) simp_all
    moreover have "lists_known (ingested page_id ob t)"
      using ci i by (simp add: lists_known_ingested)
    moreover have "fresh_verses (ingested page_id ob t) F"
      using i by (simp add: fresh_verses_ingested)
    moreover have "fresh_pages (ingested page_id ob t) P"
      using i ci by (simp add: fresh_pages_def dom_ingested)
    ultimately show "?I (ingested page_id ob t) F P" by simp
  next
    fix page_id t t' F P
    assume i: "?I t F (page_id # P)" and np: "new_page page_id t = Inr t'"
    from i have "page_id \<notin> dom (pages t)" by (simp add: fresh_pages_def)
    note pv = new_page_fresh [OF np this]
    note eqs = new_page_keeps(3,8) [OF np]
    have "lists_known t'" using np i by (simp add: new_page_lists_known)
    with i show "?I t' F P"
      unfolding page_once_def fresh_verses_def fresh_pages_def pv eqs
      by auto
  next
    fix page_id t t' F P
    assume i: "?I t F P" and ep: "end_page page_id t = Inr t'"
    note eqs = end_page_lists [OF ep]
    from i show "?I t' F P"
      unfolding page_once_def lists_known_def fresh_verses_def fresh_pages_def eqs
      by auto
  qed
  then show ?thesis by simp
qed

lemma section_once_scrape:
  assumes run: "page_loop ps init_state = Inr s"
    and dv: "distinct (map verse_id_of (all_observations ps))"
    and ds: "distinct (remdups_adj (map section_number (all_observations ps)))"
  shows "section_once s"
proof -
  let ?I = "\<lambda>(t::state) F (P::int list).
      section_once t \<and> lists_known t \<and> fresh_verses t F \<and>
      runs_ahead (dom (sections t)) (current_section t) (map section_number F)"
  have "?I s [] []"
  proof (rule page_loop_success [where I = ?I, OF _ _ _ _ run])
    show "?I init_state (all_observations ps) (map page_number ps)"
      using dv ds by (simp add: init_lists init_fields fresh_verses_def runs_ahead_def)
  next
    fix page_id ob t F P
    assume i: "?I t (ob # F) P" and ci: "can_ingest page_id ob t"
    have "section_once (ingested page_id ob t)"
      using ci i by (intro section_once_ingested [where F = F]) simp_all
    moreover have "lists_known (ingested page_id ob t)"
      using ci i by (simp add: lists_known_ingested)
    moreover have "fresh_verses (ingested page_id ob t) F"
      using i by (simp add: fresh_verses_ingested)
    moreover have "runs_ahead (dom (sections (ingested page_id ob t)))
        (current_section (ingested page_id ob t)) (map section_number F)"
      using ci i by (intro sections_ahead_ingested) simp_all
    ultimately show "?I (ingested page_id ob t) F P" by simp
  next
    fix page_id t t' F P
    assume i: "?I t F (page_id # P)" and np: "new_page page_id t = Inr t'"
    note eqs = new_page_keeps(1,3,5,7) [OF np]
    have "lists_known t'" using np i by (simp add: new_page_lists_known)
    with i show "?I t' F P"
      unfolding section_once_def fresh_verses_def eqs
      by auto
  next
    fix page_id t t' F P
    assume i: "?I t F P" and ep: "end_page page_id t = Inr t'"
    note eqs = end_page_lists [OF ep]
    from i show "?I t' F P"
      unfolding section_once_def lists_known_def fresh_verses_def eqs
      by auto
  qed
  then show ?thesis by simp
qed

lemma chapter_once_scrape:
  assumes run: "page_loop ps init_state = Inr s"
    and dv: "distinct (map verse_id_of (all_observations ps))"
    and dc: "distinct (remdups_adj (map chapter_number (all_observations ps)))"
  shows "chapter_once s"
proof -
  let ?I = "\<lambda>(t::state) F (P::int list).
      chapter_once t \<and> lists_known t \<and> fresh_verses t F \<and>
      runs_ahead (dom (chapters t)) (current_chapter t) (map chapter_number F)"
  have "?I s [] []"
  proof (rule page_loop_success [where I = ?I, OF _ _ _ _ run])
    show "?I init_state (all_observations ps) (map page_number ps)"
      using dv dc by (simp add: init_lists init_fields fresh_verses_def runs_ahead_def)
  next
    fix page_id ob t F P
    assume i: "?I t (ob # F) P" and ci: "can_ingest page_id ob t"
    have "chapter_once (ingested page_id ob t)"
      using ci i by (intro chapter_once_ingested [where F = F]) simp_all
    moreover have "lists_known (ingested page_id ob t)"
      using ci i by (simp add: lists_known_ingested)
    moreover have "fresh_verses (ingested page_id ob t) F"
      using i by (simp add: fresh_verses_ingested)
    moreover have "runs_ahead (dom (chapters (ingested page_id ob t)))
        (current_chapter (ingested page_id ob t)) (map chapter_number F)"
      using ci i by (intro chapters_ahead_ingested) simp_all
    ultimately show "?I (ingested page_id ob t) F P" by simp
  next
    fix page_id t t' F P
    assume i: "?I t F (page_id # P)" and np: "new_page page_id t = Inr t'"
    note eqs = new_page_keeps(2,3,4,6) [OF np]
    have "lists_known t'" using np i by (simp add: new_page_lists_known)
    with i show "?I t' F P"
      unfolding chapter_once_def fresh_verses_def eqs
      by auto
  next
    fix page_id t t' F P
    assume i: "?I t F P" and ep: "end_page page_id t = Inr t'"
    note eqs = end_page_lists [OF ep]
    from i show "?I t' F P"
      unfolding chapter_once_def lists_known_def fresh_verses_def eqs
      by auto
  qed
  then show ?thesis by simp
qed

lemma verse_links_scrape:
  assumes run: "page_loop ps init_state = Inr s"
  shows "verse_links_ok s"
proof -
  let ?I = "\<lambda>(t::state) (F::observation list) (P::int list). verse_links_ok t"
  show "?I s [] []"
  proof (rule page_loop_success [where I = ?I, OF _ _ _ _ run])
    show "?I init_state (all_observations ps) (map page_number ps)"
      by (simp add: verse_links_ok_def init_state_def)
  next
    fix page_id ob t F P
    assume i: "verse_links_ok t" and ci: "can_ingest page_id ob t"
    show "verse_links_ok (ingested page_id ob t)"
      unfolding verse_links_ok_def dom_ingested(1) [OF ci] dom_ingested(2,3)
    proof (intro allI impI)
      fix k v assume v: "verses (ingested page_id ob t) k = Some v"
      show "v_page v \<in> dom (pages t) \<and>
            v_section v \<in> insert (section_number ob) (dom (sections t)) \<and>
            v_chapter v \<in> insert (chapter_number ob) (dom (chapters t))"
      proof (cases "k = verse_id_of ob")
        case True
        with v ci show ?thesis by (auto simp: verses_ingested can_ingest_def)
      next
        case False
        with v have "verses t k = Some v" by (simp add: verses_ingested)
        with i show ?thesis unfolding verse_links_ok_def by blast
      qed
    qed
  next
    fix page_id t t' F P
    assume i: "verse_links_ok t" and np: "new_page page_id t = Inr t'"
    from np have "verses t' = verses t" "chapters t' = chapters t" "sections t' = sections t"
      "dom (pages t') = insert page_id (dom (pages t))"
      by (auto simp: new_page_def)
    with i show "verse_links_ok t'" unfolding verse_links_ok_def by auto
  next
    fix page_id t t' F P
    assume i: "verse_links_ok t" and ep: "end_page page_id t = Inr t'"
    note eqs = end_page_lists(4,5,6,9) [OF ep]
    from i show "verse_links_ok t'" unfolding verse_links_ok_def eqs by simp
  qed
qed

text \<open>
  Against claim C3: chapter 1 comes back after chapter 2. Verse \<open>1:1\<close> still names chapter
  1, but the record of chapter 1 was replaced when the chapter came back, and its verses
  list is \<open>1:2\<close> alone. The lists of page 1 and of section 1 still hold the verse once.
\<close>

theorem verse_lost_counterexample:
  "map_option v_chapter (verses (final_state (page_loop revisit_pages init_state)) ''1:1'') = Some 1
   \<and> map_option c_verses (chapters (final_state (page_loop revisit_pages init_state)) 1)
       = Some [''1:2'']
   \<and> count_list [''1:2''] ''1:1'' \<noteq> 1
   \<and> map_option p_verses (pages (final_state (page_loop revisit_pages init_state)) 1)
       = Some [''1:1'', ''2:1'', ''1:2'']
   \<and> map_option s_verses (sections (final_state (page_loop revisit_pages init_state)) 1)
       = Some [''1:1'', ''2:1'', ''1:2'']"
  by (simp add: revisit_pages_def eval_defs)

text \<open>
  Claim C3, amended. After a run without exception, the page, section and chapter ids of
  every verse record are keys of the pages, sections and chapters mappings. When no verse
  id is observed twice, the page's verses list holds the verse id exactly once if no page
  number occurs twice; the section's list holds it exactly once if no section number
  comes back after the observations have left it; and the chapter's list holds it exactly
  once if no chapter number comes back after the observations have left it.
\<close>

theorem verse_record_links:
  assumes "page_loop ps init_state = Inr s" and "verses s k = Some v"
  shows "(\<exists>p x c. pages s (v_page v) = Some p \<and> sections s (v_section v) = Some x \<and>
            chapters s (v_chapter v) = Some c \<and>
            (distinct (map verse_id_of (all_observations ps)) \<and>
             distinct (map page_number ps) \<longrightarrow> count_list (p_verses p) k = 1) \<and>
            (distinct (map verse_id_of (all_observations ps)) \<and>
             distinct (remdups_adj (map section_number (all_observations ps)))
               \<longrightarrow> count_list (s_verses x) k = 1) \<and>
            (distinct (map verse_id_of (all_observations ps)) \<and>
             distinct (remdups_adj (map chapter_number (all_observations ps)))
               \<longrightarrow> count_list (c_verses c) k = 1))"
proof -
  from verse_links_scrape [OF assms(1)] assms(2)
  obtain p x c where r: "pages s (v_page v) = Some p" "sections s (v_section v) = Some x"
    "chapters s (v_chapter v) = Some c"
    unfolding verse_links_ok_def by blast
  have pg: "count_list (p_verses p) k = 1"
    if "distinct (map verse_id_of (all_observations ps)) \<and> distinct (map page_number ps)"
  proof -
    from that have "page_once s" using page_once_scrape [OF assms(1)] by blast
    with assms(2) have "count_list (page_verses s (v_page v)) k = 1"
      unfolding page_once_def by blast
    with r(1) show ?thesis by (simp add: page_verses_def)
  qed
  have se: "count_list (s_verses x) k = 1"
    if "distinct (map verse_id_of (all_observations ps)) \<and>
        distinct (remdups_adj (map section_number (all_observations ps)))"
  proof -
    from that have "section_once s" using section_once_scrape [OF assms(1)] by blast
    with assms(2) have "count_list (section_verses s (v_section v)) k = 1"
      unfolding section_once_def by blast
    with r(2) show ?thesis by (simp add: section_verses_def)
  qed
  have ch: "count_list (c_verses c) k = 1"
    if "distinct (map verse_id_of (all_observations ps)) \<and>
        distinct (remdups_adj (map chapter_number (all_observations ps)))"
  proof -
    from that have "chapter_once s" using chapter_once_scrape [OF assms(1)] by blast
    with assms(2) have "count_list (chapter_verses s (v_chapter v)) k = 1"
      unfolding chapter_once_def by blast
    with r(3) show ?thesis by (simp add: chapter_verses_def)
  qed
  from r pg se ch show ?thesis by blast
qed

theorem verse_record_links_witness:
  "page_loop scenario_pages init_state = Inr scenario_state
   \<and> distinct (map verse_id_of (all_observations scenario_pages))
   \<and> distinct (map page_number scenario_pages)
   \<and> distinct (remdups_adj (map section_number (all_observations scenario_pages)))
   \<and> distinct (remdups_adj (map chapter_number (all_observations scenario_pages)))
   \<and> map_option v_chapter (verses scenario_state ''2:1'') = Some 2
   \<and> map_option v_page (verses scenario_state ''2:1'') = Some 1
   \<and> map_option v_section (verses scenario_state ''2:1'') = Some 1
   \<and> (\<exists>p x c. pages scenario_state 1 = Some p \<and> sections scenario_state 1 = Some x \<and>
          chapters scenario_state 2 = Some c \<and> count_list (p_verses p) ''2:1'' = 1 \<and>
          count_list (s_verses x) ''2:1'' = 1 \<and> count_list (c_verses c) ''2:1'' = 1)"
proof -
  have nr: "distinct (map verse_id_of (all_observations scenario_pages))"
    "distinct (map page_number scenario_pages)"
    "distinct (remdups_adj (map section_number (all_observations scenario_pages)))"
    "distinct (remdups_adj (map chapter_number (all_observations scenario_pages)))"
    by (simp_all add: eval_defs)
  have v: "verses scenario_state ''2:1'' =
     Some \<lparr> v_id = ''2:1'', v_number = 1, v_arabic_unicodes = [], v_explanations = [''2:1''],
            v_page = 1, v_section = 1, v_chapter = 2 \<rparr>"
    by (simp add: scenario_state_def eval_defs)
  from verse_record_links [OF scenario_runs v] nr v scenario_runs show ?thesis
    by simp
qed

subsection \<open>Cancellation and the final dump\<close>

text \<open>
  A signal raised when the next verse is opened stops the verse loop with the state that
  the observations before it have built: nothing is discarded and nothing is changed.
\<close>

lemma verse_loop_interrupted:
  "verse_loop page_id (map Observed obs @ Raises g # rest) s =
     (case verse_loop page_id (map Observed obs) s of
        Inl x \<Rightarrow> Inl x
      | Inr s' \<Rightarrow> Inl (Signal g, s'))"
  by (induction obs arbitrary: s) (auto split: sum.splits)

lemma verse_loop_observed:
  "verse_loop page_id (map Observed obs) s = Inr s' \<Longrightarrow>
   verse_loop page_id (map Observed obs @ Raises g # rest) s = Inl (Signal g, s')"
  by (simp add: verse_loop_interrupted)

text \<open>Every page, chapter and section record holds a set, so its dump raises.\<close>

lemma json_dump_pages:
  "json_dump name (pages s) page_dict written =
     (if pages s = Map.empty then Inr (written @ [name]) else Inl TypeError)"
  by (auto simp: json_dump_def page_dict_def fun_eq_iff)

lemma json_dump_verses: "json_dump name (verses s) verse_dict written = Inr (written @ [name])"
  by (simp add: json_dump_def verse_dict_def)

lemma json_dump_languages: "json_dump name languages language_dict written = Inr (written @ [name])"
  by (simp add: json_dump_def language_dict_def)

lemma finalize_pages:
  "pages s \<noteq> Map.empty \<Longrightarrow> finalize s = Inl TypeError"
  by (simp add: finalize_def json_dump_pages json_dump_verses json_dump_languages)

lemma script_TypeError:
  "pages (final_state (page_loop ps init_state)) \<noteq> Map.empty \<Longrightarrow> script ps = Inl TypeError"
  by (simp add: script_def finalize_pages)

text \<open>
  Claim C7 at the failing input: the interrupt after two of five observations leaves
  exactly the state of those two observations, and the dump of that state raises
  \<open>TypeError\<close> at the pages file; the script ends with this exception.
\<close>

theorem cancelled_run:
  "page_loop cancelled_pages init_state = Inl (Signal KeyboardInterrupt, cancelled_state)
   \<and> finalize cancelled_state = Inl TypeError
   \<and> script cancelled_pages = Inl TypeError"
proof -
  let ?s0 = "final_state (new_page 1 init_state)"
  have i1: "ingest 1 (synthetic 1 1 1) ?s0 = Inr (ingested 1 (synthetic 1 1 1) ?s0)"
    by (simp add: ingest_Inr_iff can_ingest_def new_page_def init_state_def synthetic_def)
  have i2: "ingest 1 (synthetic 1 1 2) (ingested 1 (synthetic 1 1 1) ?s0) = Inr cancelled_state"
    by (simp add: ingest_Inr_iff can_ingest_def cancelled_state_def dom_ingested
          new_page_def init_state_def synthetic_def)
  have "verse_loop 1 (map Observed [synthetic 1 1 1, synthetic 1 1 2]) ?s0 = Inr cancelled_state"
    by (simp add: i1 i2)
  then have "verse_loop 1 (map Observed [synthetic 1 1 1, synthetic 1 1 2] @
      Raises KeyboardInterrupt # [Observed (synthetic 1 1 4), Observed (synthetic 1 1 5)]) ?s0
      = Inl (Signal KeyboardInterrupt, cancelled_state)"
    by (rule verse_loop_observed)
  then have run: "page_loop cancelled_pages init_state = Inl (Signal KeyboardInterrupt, cancelled_state)"
    by (simp add: cancelled_pages_def scrape_page_def new_page_def wait_page_def)
  have "pages cancelled_state \<noteq> Map.empty"
    by (simp add: cancelled_state_def pages_ingested)
  then have fin: "finalize cancelled_state = Inl TypeError"
    by (rule finalize_pages)
  from run fin show ?thesis by (simp add: script_def)
qed

end
